theory Spec2Isabelle
  imports Complex_Main "HOL-Library.Word"
begin

unbundle bit_operations_syntax

section \<open>Machine types\<close>

text \<open>
  The kernel's fixed-width integers.  Signed fields (\<open>s16\<close>, \<open>s32\<close>) are words that are
  read with \<open>sint\<close> where the source compares them as signed numbers; arithmetic wraps as
  on the machine.
\<close>

type_synonym u8 = "8 word"
type_synonym u16 = "16 word"
type_synonym u32 = "32 word"
type_synonym u64 = "64 word"
type_synonym s16 = "16 word"
type_synonym s32 = "32 word"

section \<open>Data model of \<open>sch_cake.c\<close>\<close>

subsection \<open>Packets\<close>

text \<open>
  What the scheduler reads from a \<open>struct sk_buff\<close>: \<open>skb->len\<close>, the charged length
  \<open>qdisc_pkt_len(skb)\<close>, \<open>skb->truesize\<close>, the L3 protocol with its DS field, the hash the
  flow dissector yields for it, and the CoDel enqueue stamp.
\<close>

datatype l3_proto = ETH_P_IP | ETH_P_IPV6 | ETH_P_OTHER

record sk_buff =
  skb_len :: u32
  pkt_len :: u32
  truesize :: u32
  protocol :: l3_proto
  dsfield :: u8
  flow_hash :: u32
  enqueue_time :: u64

subsection \<open>CoDel state\<close>

text \<open>
  Modelled from the spec: \<open>struct codel_vars\<close> and \<open>struct codel_params\<close> live in
  \<open>codel5.h\<close>, which is not among the sources.  The fields are the per-flow state listed
  in the specification (count, lastcount, dropping, drop_next, the drop and mark tallies,
  first_above_time); \<open>sch_cake.c\<close> itself reads \<open>drop_count\<close> and \<open>ecn_mark\<close> into
  \<open>u16\<close> locals.  The parameters are the target and the interval, in nanoseconds.
\<close>

record codel_vars =
  cv_count :: u32
  cv_lastcount :: u32
  cv_dropping :: bool
  cv_drop_next :: u64
  cv_first_above_time :: u64
  drop_count :: u16
  ecn_mark :: u16

record codel_params =
  cp_target :: u64
  cp_interval :: u64

subsection \<open>Flows, tins and the scheduler\<close>

text \<open>
  \<open>struct cake_flow\<close>: the \<open>head\<close>/\<open>tail\<close> linked list of packets is the list \<open>queue\<close>
  (head first).  The intrusive \<open>flowchain\<close> node is represented on the side of the tin:
  \<open>new_flows\<close> and \<open>old_flows\<close> are the lists of the indices of the flows chained on them,
  and \<open>list_empty(&flow->flowchain)\<close> holds when the index is on neither.
\<close>

record cake_flow =
  queue :: "sk_buff list"
  deficit :: s32
  dropped :: u32
  cvars :: codel_vars

text \<open>
  \<open>struct cake_tin_data\<close>.  The arrays \<open>flows\<close> and \<open>backlogs\<close> are functions from the
  index; \<open>flows_cnt\<close> is their size as the source stores it.
\<close>

record cake_tin_data =
  flows :: "nat \<Rightarrow> cake_flow"
  backlogs :: "nat \<Rightarrow> u32"
  flows_cnt :: u32
  perturbation :: u32
  quantum :: u16
  bulk_flow_count :: u16
  drop_overlimit :: u32
  new_flows :: "nat list"
  old_flows :: "nat list"
  tin_time_next_packet :: u64
  tin_rate_ns :: u32
  tin_rate_bps :: u32
  tin_rate_shft :: u16
  tin_quantum_prio :: u16
  tin_quantum_band :: u16
  tin_deficit :: s32
  tin_backlog :: u32
  tin_dropped :: u32
  tin_ecn_mark :: u32
  packets :: u32
  bytes :: u64

text \<open>
  \<open>struct cake_sched_data\<close>, together with the fields of the enclosing \<open>struct Qdisc\<close>
  that the source reads and writes (\<open>sch->limit\<close>, \<open>sch->q.qlen\<close>, \<open>sch->qstats\<close>, the
  \<open>TCQ_F_CAN_BYPASS\<close> flag) and the device value \<open>psched_mtu(qdisc_dev(sch))\<close>.
  \<open>tins_alloc\<close> says that \<open>q->tins\<close> is not \<open>NULL\<close>; \<open>watchdog\<close> is the expiry the
  watchdog is armed for.
\<close>

record cake_sched_data =
  tins :: "nat \<Rightarrow> cake_tin_data"
  tins_alloc :: bool
  cparams :: codel_params
  tin_cnt :: u16
  tin_mode :: u8
  flow_mode :: u8
  rate_shft :: u16
  time_next_packet :: u64
  rate_ns :: u32
  rate_bps :: u32
  rate_flags :: u16
  rate_overhead :: s16
  interval :: u32
  target :: u32
  buffer_used :: u32
  buffer_limit :: u32
  buffer_config_limit :: u32
  cur_tin :: u16
  cur_flow :: u16
  watchdog :: "u64 option"
  tin_index :: "nat \<Rightarrow> u8"
  sch_limit :: u32
  sch_qlen :: u32
  sch_backlog :: u32
  sch_drops :: u32
  sch_overlimits :: u32
  sch_can_bypass :: bool
  sch_mtu :: u32

definition CAKE_MAX_TINS :: nat where
  "CAKE_MAX_TINS = 8"

definition CAKE_MODE_BESTEFFORT :: u8 where
  "CAKE_MODE_BESTEFFORT = 1"

definition CAKE_MODE_PRECEDENCE :: u8 where
  "CAKE_MODE_PRECEDENCE = 2"

definition CAKE_MODE_DIFFSERV8 :: u8 where
  "CAKE_MODE_DIFFSERV8 = 3"

definition CAKE_MODE_DIFFSERV4 :: u8 where
  "CAKE_MODE_DIFFSERV4 = 4"

definition CAKE_FLAG_ATM :: u16 where
  "CAKE_FLAG_ATM = 0x0001"

definition CAKE_FLAG_AUTORATE_INGRESS :: u16 where
  "CAKE_FLAG_AUTORATE_INGRESS = 0x0010"

definition CAKE_FLAG_WASH :: u16 where
  "CAKE_FLAG_WASH = 0x0100"

definition CAKE_FLOW_NONE :: u8 where
  "CAKE_FLOW_NONE = 0"

definition CAKE_FLOW_FLOWS :: u8 where
  "CAKE_FLOW_FLOWS = 4"

text \<open>What a crash or a hang of the C code is in the model.\<close>

datatype fault = Null_Deref | Hang

text \<open>Updating one tin of the scheduler, one flow of a tin.\<close>

definition upd_tin :: "nat \<Rightarrow> (cake_tin_data \<Rightarrow> cake_tin_data) \<Rightarrow> cake_sched_data \<Rightarrow> cake_sched_data" where
  "upd_tin t f q = q\<lparr>tins := (tins q)(t := f (tins q t))\<rparr>"

definition upd_flow :: "nat \<Rightarrow> (cake_flow \<Rightarrow> cake_flow) \<Rightarrow> cake_tin_data \<Rightarrow> cake_tin_data" where
  "upd_flow i f b = b\<lparr>flows := (flows b)(i := f (flows b i))\<rparr>"

section \<open>Helpers\<close>

text \<open>
  Modelled from the spec: \<open>reciprocal_scale\<close> is a kernel helper; the specification
  gives the reduction as \<open>(hash * flows_cnt) >> 32\<close>.
\<close>

definition reciprocal_scale :: "u32 \<Rightarrow> u32 \<Rightarrow> u32" where
  "reciprocal_scale val ep_ro = ucast (drop_bit 32 ((ucast val :: u64) * ucast ep_ro))"

text \<open>\<open>cake_hash\<close>: flow mode \<open>NONE\<close> bypasses hashing; otherwise the hash is reduced.\<close>

definition cake_hash :: "cake_tin_data \<Rightarrow> sk_buff \<Rightarrow> u8 \<Rightarrow> u32" where
  "cake_hash b skb fm =
     (if fm = CAKE_FLOW_NONE then 0 else reciprocal_scale (flow_hash skb) (flows_cnt b))"

text \<open>
  \<open>dequeue_head\<close> dereferences \<open>flow->head\<close> without a check: on an empty queue the
  result is \<open>None\<close> (the C code faults).
\<close>

definition dequeue_head :: "cake_flow \<Rightarrow> (sk_buff \<times> cake_flow) option" where
  "dequeue_head flow =
     (case queue flow of [] \<Rightarrow> None | skb # rest \<Rightarrow> Some (skb, flow\<lparr>queue := rest\<rparr>))"

definition flow_queue_add :: "cake_flow \<Rightarrow> sk_buff \<Rightarrow> cake_flow" where
  "flow_queue_add flow skb = flow\<lparr>queue := queue flow @ [skb]\<rparr>"

text \<open>
  \<open>cake_overhead\<close>: \<open>u32 out = in + q->rate_overhead\<close> converts the \<open>s16\<close> overhead to
  \<open>unsigned\<close> (sign extension) and adds modulo \<open>2^32\<close>; the ATM branch is \<open>u32\<close>
  arithmetic too.
\<close>

definition cake_overhead :: "cake_sched_data \<Rightarrow> u32 \<Rightarrow> u32" where
  "cake_overhead q n =
     (let out = n + scast (rate_overhead q) in
      if rate_flags q AND CAKE_FLAG_ATM \<noteq> 0 then ((out + 47) div 48) * 53 else out)"

section \<open>\<open>cake_drop\<close>\<close>

text \<open>
  The scan of one flow list and of the tins in use: \<open>(maxbacklog, idx, tin)\<close> changes
  only on a strictly larger backlog; each tin's \<open>old_flows\<close> are walked before its
  \<open>new_flows\<close>.
\<close>

fun cake_drop_scan :: "(nat \<Rightarrow> u32) \<Rightarrow> nat \<Rightarrow> nat list \<Rightarrow> u32 \<times> nat \<times> nat \<Rightarrow> u32 \<times> nat \<times> nat" where
  "cake_drop_scan bl j [] acc = acc"
| "cake_drop_scan bl j (i # rest) (maxbacklog, idx, tin) =
     cake_drop_scan bl j rest
       (if bl i > maxbacklog then (bl i, i, j) else (maxbacklog, idx, tin))"

definition cake_drop_scan_tin :: "cake_sched_data \<Rightarrow> nat \<Rightarrow> u32 \<times> nat \<times> nat \<Rightarrow> u32 \<times> nat \<times> nat" where
  "cake_drop_scan_tin q j acc =
     (let b = tins q j in
      cake_drop_scan (backlogs b) j (new_flows b) (cake_drop_scan (backlogs b) j (old_flows b) acc))"

definition cake_drop_find :: "cake_sched_data \<Rightarrow> u32 \<times> nat \<times> nat" where
  "cake_drop_find q = fold (cake_drop_scan_tin q) [0..<unat (tin_cnt q)] (0, 0, 0)"

text \<open>
  \<open>cake_drop\<close> head-drops one packet from the flow found and returns
  \<open>idx + (tin << 16)\<close>.
\<close>

definition cake_drop :: "cake_sched_data \<Rightarrow> fault + (u32 \<times> cake_sched_data)" where
  "cake_drop q =
     (case cake_drop_find q of (maxbacklog, idx, tin) \<Rightarrow>
        let b = tins q tin in
        (case dequeue_head (flows b idx) of
           None \<Rightarrow> Inl Null_Deref
         | Some (skb, flow) \<Rightarrow>
             let n = pkt_len skb;
                 b' = b\<lparr>flows := (flows b)(idx := flow\<lparr>dropped := dropped flow + 1\<rparr>),
                        backlogs := (backlogs b)(idx := backlogs b idx - n),
                        tin_backlog := tin_backlog b - n,
                        tin_dropped := tin_dropped b + 1\<rparr>
             in Inr (of_nat idx + push_bit 16 (of_nat tin),
                     q\<lparr>tins := (tins q)(tin := b'),
                       buffer_used := buffer_used q - truesize skb,
                       sch_backlog := sch_backlog q - n,
                       sch_drops := sch_drops q + 1,
                       sch_qlen := sch_qlen q - 1\<rparr>)))"

section \<open>\<open>cake_enqueue\<close>\<close>

definition INET_ECN_MASK :: u8 where
  "INET_ECN_MASK = 3"

text \<open>
  Modelled from the spec: \<open>ipv4_change_dsfield\<close> and \<open>ipv6_change_dsfield\<close> are kernel
  helpers; called with mask \<open>INET_ECN_MASK\<close> and value 0 they zero the DSCP bits and
  keep the ECN bits.
\<close>

definition change_dsfield :: "sk_buff \<Rightarrow> u8 \<Rightarrow> u8 \<Rightarrow> sk_buff" where
  "change_dsfield skb msk v = skb\<lparr>dsfield := (dsfield skb AND msk) OR v\<rparr>"

definition cake_wash_diffserv :: "sk_buff \<Rightarrow> sk_buff" where
  "cake_wash_diffserv skb =
     (case protocol skb of
        ETH_P_IP \<Rightarrow> change_dsfield skb INET_ECN_MASK 0
      | ETH_P_IPV6 \<Rightarrow> change_dsfield skb INET_ECN_MASK 0
      | ETH_P_OTHER \<Rightarrow> skb)"

text \<open>\<open>cake_handle_diffserv\<close> returns the DSCP and the packet, washed when asked and the DSCP is not 0.\<close>

definition cake_handle_diffserv :: "sk_buff \<Rightarrow> bool \<Rightarrow> u32 \<times> sk_buff" where
  "cake_handle_diffserv skb wash =
     (case protocol skb of
        ETH_P_OTHER \<Rightarrow> (0, skb)
      | _ \<Rightarrow>
          let dscp = drop_bit 2 (dsfield skb) in
          (ucast dscp, if wash \<and> dscp \<noteq> 0 then change_dsfield skb INET_ECN_MASK 0 else skb))"

text \<open>The tin of a packet (lines 403-414): the codepoint table, clamped to tin 0.\<close>

definition cake_classify :: "cake_sched_data \<Rightarrow> sk_buff \<Rightarrow> nat \<times> sk_buff" where
  "cake_classify q skb =
     (let wash = (rate_flags q AND CAKE_FLAG_WASH \<noteq> 0) in
      if tin_mode q \<noteq> CAKE_MODE_BESTEFFORT then
        (case cake_handle_diffserv skb wash of (dscp, skb') \<Rightarrow>
           let tin = (ucast (tin_index q (unat dscp)) :: u32) in
           (if tin \<ge> ucast (tin_cnt q) then 0 else unat tin, skb'))
      else (0, if wash then cake_wash_diffserv skb else skb))"

text \<open>Lines 422-430: a shaper clock left in the past is moved up to \<open>now\<close>.\<close>

definition cake_unstale :: "u64 \<Rightarrow> nat \<Rightarrow> cake_sched_data \<Rightarrow> cake_sched_data" where
  "cake_unstale now tin q =
     (let b = tins q tin in
      if tin_backlog b = 0 then
        (let q1 = (if tin_time_next_packet b < now
                   then upd_tin tin (\<lambda>b. b\<lparr>tin_time_next_packet := now\<rparr>) q else q)
         in if sch_qlen q1 = 0 \<and> time_next_packet q1 < now
            then q1\<lparr>time_next_packet := now\<rparr> else q1)
      else q)"

text \<open>
  What the environment says about segmentation: \<open>skb_is_gso\<close> is false, or
  \<open>skb_gso_segment\<close> fails (\<open>IS_ERR_OR_NULL\<close>), or it yields the segments.
\<close>

datatype gso_result = Not_GSO | GSO_Failed | GSO_Segs "sk_buff list"

datatype xmit = NET_XMIT_SUCCESS | RESHAPE_FAIL

text \<open>One round of the segment loop (lines 445-457); the second component is \<open>slen\<close>.\<close>

definition cake_gso_add :: "u64 \<Rightarrow> nat \<Rightarrow> nat \<Rightarrow> sk_buff \<Rightarrow> cake_sched_data \<times> u32 \<Rightarrow> cake_sched_data \<times> u32" where
  "cake_gso_add now tin idx seg qs =
     (case qs of (q, slen) \<Rightarrow>
        let seg' = seg\<lparr>pkt_len := skb_len seg, enqueue_time := now\<rparr>;
            q1 = upd_tin tin (\<lambda>b. (upd_flow idx (\<lambda>f. flow_queue_add f seg') b)
                                  \<lparr>packets := packets b + 1\<rparr>) q
        in (q1\<lparr>sch_qlen := sch_qlen q1 + 1, buffer_used := buffer_used q1 + truesize seg\<rparr>,
            slen + skb_len seg))"

definition cake_enqueue_gso :: "u64 \<Rightarrow> nat \<Rightarrow> nat \<Rightarrow> sk_buff list \<Rightarrow> cake_sched_data \<Rightarrow> cake_sched_data" where
  "cake_enqueue_gso now tin idx segs q =
     (case fold (cake_gso_add now tin idx) segs (q, 0) of (q1, slen) \<Rightarrow>
        let q2 = upd_tin tin (\<lambda>b. b\<lparr>bytes := bytes b + ucast slen,
                                     backlogs := (backlogs b)(idx := backlogs b idx + slen),
                                     tin_backlog := tin_backlog b + slen\<rparr>) q1
        in q2\<lparr>sch_backlog := sch_backlog q2 + slen\<rparr>)"

text \<open>The branch that does not split (lines 467-478).\<close>

definition cake_enqueue_plain :: "u64 \<Rightarrow> nat \<Rightarrow> nat \<Rightarrow> sk_buff \<Rightarrow> cake_sched_data \<Rightarrow> cake_sched_data" where
  "cake_enqueue_plain now tin idx skb q =
     (let n = pkt_len skb;
          skb' = skb\<lparr>enqueue_time := now\<rparr>;
          q1 = upd_tin tin (\<lambda>b. (upd_flow idx (\<lambda>f. flow_queue_add f skb') b)
                                 \<lparr>packets := packets b + 1,
                                  bytes := bytes b + ucast n,
                                  backlogs := (backlogs b)(idx := backlogs b idx + n),
                                  tin_backlog := tin_backlog b + n\<rparr>) q
      in q1\<lparr>sch_qlen := sch_qlen q1 + 1,
             sch_backlog := sch_backlog q1 + n,
             buffer_used := buffer_used q1 + truesize skb\<rparr>)"

text \<open>
  Lines 481-486: a flow whose \<open>flowchain\<close> node is on no list is appended to
  \<open>new_flows\<close> with the quantum as its deficit.
\<close>

definition flowchain_empty :: "cake_tin_data \<Rightarrow> nat \<Rightarrow> bool" where
  "flowchain_empty b idx \<longleftrightarrow> idx \<notin> set (new_flows b) \<and> idx \<notin> set (old_flows b)"

definition cake_enqueue_flowchain :: "nat \<Rightarrow> nat \<Rightarrow> cake_sched_data \<Rightarrow> cake_sched_data" where
  "cake_enqueue_flowchain tin idx q =
     (if flowchain_empty (tins q tin) idx then
        upd_tin tin (\<lambda>b. (upd_flow idx (\<lambda>f. f\<lparr>deficit := ucast (quantum b), dropped := 0\<rparr>) b)
                           \<lparr>new_flows := new_flows b @ [idx]\<rparr>) q
      else q)"

text \<open>
  The number of packets on the flows that \<open>cake_drop\<close> can reach: those chained in some
  tin, and flow 0.  Every \<open>cake_drop\<close> that returns takes one of them away, which bounds
  the loop of lines 491-494.
\<close>

definition droppable_in :: "cake_tin_data \<Rightarrow> nat" where
  "droppable_in b =
     (\<Sum>i \<in> insert 0 (set (new_flows b) \<union> set (old_flows b)). length (queue (flows b i)))"

definition droppable :: "cake_sched_data \<Rightarrow> nat" where
  "droppable q = (\<Sum>t < 65536. droppable_in (tins q t))"

lemma cake_drop_scan_cases:
  "cake_drop_scan bl j is (m, idx, tin) = (m', idx', tin') \<Longrightarrow>
     (idx' = idx \<and> tin' = tin) \<or> (idx' \<in> set is \<and> tin' = j)"
  by (induction "is" arbitrary: m idx tin) (auto split: if_splits)

lemma cake_drop_find_cases_aux:
  "fold (cake_drop_scan_tin q) js acc = (m', idx', tin') \<Longrightarrow> acc = (m, idx, tin) \<Longrightarrow>
     (idx' = idx \<and> tin' = tin) \<or>
     (tin' \<in> set js \<and> idx' \<in> set (new_flows (tins q tin')) \<union> set (old_flows (tins q tin')))"
proof (induction js arbitrary: acc m idx tin)
  case Nil
  then show ?case by simp
next
  case (Cons j js)
  obtain m1 i1 t1 where o: "cake_drop_scan (backlogs (tins q j)) j (old_flows (tins q j)) (m, idx, tin) = (m1, i1, t1)"
    by (cases "cake_drop_scan (backlogs (tins q j)) j (old_flows (tins q j)) (m, idx, tin)") auto
  obtain m2 i2 t2 where n: "cake_drop_scan (backlogs (tins q j)) j (new_flows (tins q j)) (m1, i1, t1) = (m2, i2, t2)"
    by (cases "cake_drop_scan (backlogs (tins q j)) j (new_flows (tins q j)) (m1, i1, t1)") auto
  have step: "cake_drop_scan_tin q j acc = (m2, i2, t2)"
    using o n Cons.prems(2) by (simp add: cake_drop_scan_tin_def Let_def)
  from Cons.prems(1) step have "fold (cake_drop_scan_tin q) js (m2, i2, t2) = (m', idx', tin')"
    by simp
  from Cons.IH[OF this refl]
  have "(idx' = i2 \<and> tin' = t2) \<or>
     (tin' \<in> set js \<and> idx' \<in> set (new_flows (tins q tin')) \<union> set (old_flows (tins q tin')))" .
  moreover from cake_drop_scan_cases[OF o]
  have "(i1 = idx \<and> t1 = tin) \<or> (i1 \<in> set (old_flows (tins q j)) \<and> t1 = j)" .
  moreover from cake_drop_scan_cases[OF n]
  have "(i2 = i1 \<and> t2 = t1) \<or> (i2 \<in> set (new_flows (tins q j)) \<and> t2 = j)" .
  ultimately show ?case by auto
qed

lemma cake_drop_find_cases:
  assumes "cake_drop_find q = (m, idx, tin)"
  shows "tin < 65536 \<and> idx \<in> insert 0 (set (new_flows (tins q tin)) \<union> set (old_flows (tins q tin)))"
proof -
  have "unat (tin_cnt q) < 65536"
    using unsigned_less[of "tin_cnt q", where ?'a = nat] by simp
  with cake_drop_find_cases_aux[OF assms[unfolded cake_drop_find_def] refl]
  show ?thesis by auto
qed

lemma droppable_in_pop:
  assumes "idx \<in> insert 0 (set (new_flows b) \<union> set (old_flows b))"
      and "queue (flows b idx) = skb # rest"
      and "new_flows b' = new_flows b" and "old_flows b' = old_flows b"
      and "\<And>i. i \<noteq> idx \<Longrightarrow> queue (flows b' i) = queue (flows b i)"
      and "queue (flows b' idx) = rest"
  shows "droppable_in b' < droppable_in b"
proof -
  let ?S = "insert 0 (set (new_flows b) \<union> set (old_flows b))"
  have fin: "finite ?S" by simp
  have "droppable_in b = length (queue (flows b idx)) + (\<Sum>i \<in> ?S - {idx}. length (queue (flows b i)))"
    unfolding droppable_in_def using sum.remove[OF fin assms(1)] by simp
  moreover have "droppable_in b' = length (queue (flows b' idx)) + (\<Sum>i \<in> ?S - {idx}. length (queue (flows b' i)))"
    unfolding droppable_in_def assms(3,4) using sum.remove[OF fin assms(1)] by simp
  moreover have "(\<Sum>i \<in> ?S - {idx}. length (queue (flows b' i))) = (\<Sum>i \<in> ?S - {idx}. length (queue (flows b i)))"
    by (rule sum.cong) (auto simp: assms(5))
  ultimately show ?thesis using assms(2,6) by simp
qed

lemma droppable_pop:
  assumes "tin < 65536" and "droppable_in (tins q' tin) < droppable_in (tins q tin)"
      and "\<And>t. t \<noteq> tin \<Longrightarrow> tins q' t = tins q t"
  shows "droppable q' < droppable q"
proof -
  have mem: "tin \<in> {..<65536::nat}" using assms(1) by simp
  have "droppable q = droppable_in (tins q tin) + (\<Sum>t \<in> {..<65536} - {tin}. droppable_in (tins q t))"
    unfolding droppable_def using sum.remove[OF _ mem, of "\<lambda>t. droppable_in (tins q t)"] by simp
  moreover have "droppable q' = droppable_in (tins q' tin) + (\<Sum>t \<in> {..<65536} - {tin}. droppable_in (tins q' t))"
    unfolding droppable_def using sum.remove[OF _ mem, of "\<lambda>t. droppable_in (tins q' t)"] by simp
  moreover have "(\<Sum>t \<in> {..<65536} - {tin}. droppable_in (tins q' t)) = (\<Sum>t \<in> {..<65536} - {tin}. droppable_in (tins q t))"
    by (rule sum.cong) (auto simp: assms(3))
  ultimately show ?thesis using assms(2) by simp
qed

lemma cake_drop_droppable:
  assumes "cake_drop q = Inr (r, q')"
  shows "droppable q' < droppable q"
proof -
  obtain m idx tin where f: "cake_drop_find q = (m, idx, tin)"
    by (cases "cake_drop_find q") auto
  from cake_drop_find_cases[OF f]
  have t: "tin < 65536"
    and i: "idx \<in> insert 0 (set (new_flows (tins q tin)) \<union> set (old_flows (tins q tin)))"
    by auto
  from assms f obtain skb rest where hd: "queue (flows (tins q tin) idx) = skb # rest"
    by (auto simp: cake_drop_def dequeue_head_def Let_def split: list.splits)
  from assms f hd have q': "q' = q\<lparr>tins := (tins q)(tin := (tins q tin)
        \<lparr>flows := (flows (tins q tin))(idx := (flows (tins q tin) idx)\<lparr>queue := rest, dropped := dropped (flows (tins q tin) idx) + 1\<rparr>),
         backlogs := (backlogs (tins q tin))(idx := backlogs (tins q tin) idx - pkt_len skb),
         tin_backlog := tin_backlog (tins q tin) - pkt_len skb,
         tin_dropped := tin_dropped (tins q tin) + 1\<rparr>),
       buffer_used := buffer_used q - truesize skb,
       sch_backlog := sch_backlog q - pkt_len skb,
       sch_drops := sch_drops q + 1,
       sch_qlen := sch_qlen q - 1\<rparr>"
    by (simp add: cake_drop_def dequeue_head_def Let_def)
  have "droppable_in (tins q' tin) < droppable_in (tins q tin)"
    by (rule droppable_in_pop[OF i hd]) (simp_all add: q')
  then show ?thesis
    by (rule droppable_pop[OF t]) (simp add: q')
qed

text \<open>
  Lines 488-497: while the buffer is over its limit, drop.  A fault of \<open>cake_drop\<close> ends
  the run.  The second component counts the drops.
\<close>

function cake_overflow_loop :: "cake_sched_data \<Rightarrow> u32 \<Rightarrow> fault + (cake_sched_data \<times> u32)" where
  "cake_overflow_loop q n =
     (if buffer_used q > buffer_limit q then
        (case cake_drop q of
           Inl e \<Rightarrow> Inl e
         | Inr (r, q') \<Rightarrow> cake_overflow_loop q' (n + 1))
      else Inr (q, n))"
  by pat_completeness auto
termination
  by (relation "measure (\<lambda>(q, n). droppable q)") (auto simp: cake_drop_droppable)

declare cake_overflow_loop.simps [simp del]

definition cake_enqueue_overflow :: "nat \<Rightarrow> cake_sched_data \<Rightarrow> fault + cake_sched_data" where
  "cake_enqueue_overflow tin q =
     (if buffer_used q > buffer_limit q then
        (case cake_overflow_loop q 0 of
           Inl e \<Rightarrow> Inl e
         | Inr (q', n) \<Rightarrow> Inr (upd_tin tin (\<lambda>b. b\<lparr>drop_overlimit := drop_overlimit b + n\<rparr>) q'))
      else Inr q)"

text \<open>
  \<open>cake_enqueue\<close>.  The calls into the qdisc tree (\<open>qdisc_tree_decrease_qlen\<close>) act on
  the parents of this qdisc only and are not part of the state.
\<close>

definition cake_enqueue :: "u64 \<Rightarrow> gso_result \<Rightarrow> sk_buff \<Rightarrow> cake_sched_data \<Rightarrow> fault + (xmit \<times> cake_sched_data)" where
  "cake_enqueue now gso skb q =
     (case cake_classify q skb of (tin, skb1) \<Rightarrow>
        let idx = unat (cake_hash (tins q tin) skb1 (flow_mode q));
            q1 = cake_unstale now tin q
        in (case gso of
              GSO_Failed \<Rightarrow> Inr (RESHAPE_FAIL, q1)
            | GSO_Segs [] \<Rightarrow> Inr (RESHAPE_FAIL, q1)
            | _ \<Rightarrow>
                let q2 = (case gso of GSO_Segs segs \<Rightarrow> cake_enqueue_gso now tin idx segs q1
                                   | _ \<Rightarrow> cake_enqueue_plain now tin idx skb1 q1);
                    q3 = cake_enqueue_flowchain tin idx q2
                in (case cake_enqueue_overflow tin q3 of
                      Inl e \<Rightarrow> Inl e
                    | Inr q4 \<Rightarrow> Inr (NET_XMIT_SUCCESS, q4))))"

section \<open>\<open>custom_dequeue\<close> and CoDel\<close>

text \<open>
  \<open>custom_dequeue\<close> pops the head of the flow under the cursors \<open>cur_tin\<close>,
  \<open>cur_flow\<close>, if it has one.  It leaves \<open>sch->qstats.backlog\<close> alone.
\<close>

definition custom_dequeue :: "cake_sched_data \<Rightarrow> sk_buff option \<times> cake_sched_data" where
  "custom_dequeue q =
     (let t = unat (cur_tin q); i = unat (cur_flow q); b = tins q t in
      case dequeue_head (flows b i) of
        None \<Rightarrow> (None, q)
      | Some (skb, flow) \<Rightarrow>
          let n = pkt_len skb;
              b' = b\<lparr>flows := (flows b)(i := flow),
                     backlogs := (backlogs b)(i := backlogs b i - n),
                     tin_backlog := tin_backlog b - n\<rparr>
          in (Some skb, q\<lparr>tins := (tins q)(t := b'),
                           buffer_used := buffer_used q - truesize skb,
                           sch_qlen := sch_qlen q - 1\<rparr>))"

text \<open>
  Modelled from the spec: \<open>codel_dequeue\<close> is defined in \<open>codel5.h\<close>, which is not among
  the sources.  The specification's operation pops the head through the callback, returns
  none on an empty queue, and otherwise passes the packet on, marks it, or drops it and
  pops the next.  The control law that takes this decision from the sojourn time, the
  target, the interval and the flow's state is a parameter here: \<open>codel_decide\<close> is given
  the flow's variables, the parameters, the time, the force flag and the packet, and
  \<open>codel_empty\<close> the variables when the queue is found empty.  The tallies \<open>drop_count\<close>
  and \<open>ecn_mark\<close> count the drops and marks.  By the comment on \<open>custom_dequeue\<close> in
  \<open>sch_cake.c\<close>, \<open>sch->qstats.backlog\<close> is handled by \<open>codel_dequeue\<close>: it is
  reduced by the length of every packet popped.
\<close>

datatype codel_verdict = Codel_Pass | Codel_Mark | Codel_Drop

record codel_model =
  codel_decide :: "codel_vars \<Rightarrow> codel_params \<Rightarrow> u64 \<Rightarrow> bool \<Rightarrow> sk_buff \<Rightarrow> codel_verdict \<times> codel_vars"
  codel_empty :: "codel_vars \<Rightarrow> codel_vars"

definition INET_ECN_CE :: u8 where
  "INET_ECN_CE = 3"

definition set_cvars :: "nat \<Rightarrow> nat \<Rightarrow> codel_vars \<Rightarrow> cake_sched_data \<Rightarrow> cake_sched_data" where
  "set_cvars t idx v q = upd_tin t (upd_flow idx (\<lambda>f. f\<lparr>cvars := v\<rparr>)) q"

definition cursor_queue :: "cake_sched_data \<Rightarrow> sk_buff list" where
  "cursor_queue q = queue (flows (tins q (unat (cur_tin q))) (unat (cur_flow q)))"

lemma custom_dequeue_Some:
  "custom_dequeue q = (Some skb, q1) \<Longrightarrow>
     cursor_queue q = skb # cursor_queue q1 \<and> cur_tin q1 = cur_tin q \<and> cur_flow q1 = cur_flow q"
  by (auto simp: custom_dequeue_def dequeue_head_def cursor_queue_def Let_def split: list.splits)

lemma custom_dequeue_None:
  "custom_dequeue q = (None, q1) \<Longrightarrow> q1 = q \<and> cursor_queue q = []"
  by (auto simp: custom_dequeue_def dequeue_head_def cursor_queue_def Let_def split: list.splits)

lemma cursor_queue_set_cvars [simp]:
  "cursor_queue (set_cvars t idx v q) = cursor_queue q"
  by (simp add: cursor_queue_def set_cvars_def upd_tin_def upd_flow_def)

function codel_dequeue :: "codel_model \<Rightarrow> u64 \<Rightarrow> bool \<Rightarrow> nat \<Rightarrow> nat \<Rightarrow> cake_sched_data \<Rightarrow> sk_buff option \<times> cake_sched_data" where
  "codel_dequeue cm now over t idx q =
     (case custom_dequeue q of
        (None, q1) \<Rightarrow> (None, set_cvars t idx (codel_empty cm (cvars (flows (tins q1 t) idx))) q1)
      | (Some skb, q1) \<Rightarrow>
          let q2 = q1\<lparr>sch_backlog := sch_backlog q1 - pkt_len skb\<rparr> in
          (case codel_decide cm (cvars (flows (tins q2 t) idx)) (cparams q2) now over skb of
             (Codel_Pass, v) \<Rightarrow> (Some skb, set_cvars t idx v q2)
           | (Codel_Mark, v) \<Rightarrow>
               (Some (skb\<lparr>dsfield := dsfield skb OR INET_ECN_CE\<rparr>),
                set_cvars t idx (v\<lparr>ecn_mark := ecn_mark v + 1\<rparr>) q2)
           | (Codel_Drop, v) \<Rightarrow>
               codel_dequeue cm now over t idx
                 (set_cvars t idx (v\<lparr>drop_count := drop_count v + 1\<rparr>)
                    (q2\<lparr>sch_drops := sch_drops q2 + 1\<rparr>))))"
  by pat_completeness auto
termination
  by (relation "measure (\<lambda>(cm, now, over, t, idx, q). length (cursor_queue q))")
     (auto dest!: custom_dequeue_Some[OF sym]
           simp: cursor_queue_def set_cvars_def upd_tin_def upd_flow_def)

declare codel_dequeue.simps [simp del]


section \<open>\<open>cake_clear_tin\<close> and \<open>cake_reset\<close>\<close>

text \<open>The inner loop \<open>while (custom_dequeue(NULL, sch));\<close> of \<open>cake_clear_tin\<close>.\<close>

function cake_clear_flow :: "cake_sched_data \<Rightarrow> cake_sched_data" where
  "cake_clear_flow q =
     (case custom_dequeue q of
        (None, q1) \<Rightarrow> q1
      | (Some skb, q1) \<Rightarrow> cake_clear_flow q1)"
  by pat_completeness auto
termination
proof (relation "measure (\<lambda>q. length (cursor_queue q))", goal_cases)
  case 1
  show ?case by simp
next
  case (2 q x1 q1 skb)
  then have "custom_dequeue q = (Some skb, q1)" by simp
  from custom_dequeue_Some[OF this] show ?case by simp
qed

lemma cake_clear_flow_cursor:
  "cur_flow (cake_clear_flow q) = cur_flow q \<and> cur_tin (cake_clear_flow q) = cur_tin q"
proof (induction q rule: cake_clear_flow.induct)
  case (1 q)
  show ?case
  proof (cases "custom_dequeue q")
    case (Pair r q1)
    show ?thesis
    proof (cases r)
      case None
      with Pair custom_dequeue_None[of q q1] show ?thesis by simp
    next
      case (Some skb)
      with Pair custom_dequeue_Some[of q skb q1] "1.IH"
      show ?thesis by simp
    qed
  qed
qed

declare cake_clear_flow.simps [simp del]

text \<open>
  The outer loop \<open>for (q->cur_flow = 0; q->cur_flow < b->flows_cnt; q->cur_flow++)\<close>.
  The cursor is a \<open>u16\<close>: when it is \<open>0xffff\<close> and still below \<open>flows_cnt\<close> the increment
  wraps to 0 and the loop never ends, which is the fault \<open>Hang\<close>.
\<close>

function cake_clear_flows :: "nat \<Rightarrow> cake_sched_data \<Rightarrow> fault + cake_sched_data" where
  "cake_clear_flows tin q =
     (if ucast (cur_flow q) < flows_cnt (tins q tin) then
        (let q1 = cake_clear_flow q in
         if cur_flow q1 = 0xFFFF then Inl Hang
         else cake_clear_flows tin (q1\<lparr>cur_flow := cur_flow q1 + 1\<rparr>))
      else Inr q)"
  by pat_completeness auto
termination
proof (relation "measure (\<lambda>(tin, q). 65536 - unat (cur_flow q))", goal_cases)
  case 1
  show ?case by simp
next
  case (2 tin q q1)
  have c: "cur_flow q1 = cur_flow q"
    using 2 cake_clear_flow_cursor[of q] by simp
  have ne: "cur_flow q \<noteq> 0xFFFF" using 2 c by simp
  have "unat (cur_flow q) < 65535"
  proof -
    have "unat (cur_flow q) < 65536"
      using unsigned_less[of "cur_flow q", where ?'a = nat] by simp
    moreover have "unat (cur_flow q) \<noteq> 65535"
      using ne by (simp add: word_unat_eq_iff)
    ultimately show ?thesis by simp
  qed
  then have "unat (cur_flow q + 1) = unat (cur_flow q) + 1"
    by (simp add: unat_word_ariths)
  then show ?case using c \<open>unat (cur_flow q) < 65535\<close> by simp
qed

declare cake_clear_flows.simps [simp del]

definition cake_clear_tin :: "u16 \<Rightarrow> cake_sched_data \<Rightarrow> fault + cake_sched_data" where
  "cake_clear_tin tin q = cake_clear_flows (unat tin) (q\<lparr>cur_tin := tin, cur_flow := 0\<rparr>)"

fun cake_clear_tins :: "nat list \<Rightarrow> cake_sched_data \<Rightarrow> fault + cake_sched_data" where
  "cake_clear_tins [] q = Inr q"
| "cake_clear_tins (c # cs) q =
     (case cake_clear_tin (of_nat c) q of
        Inl e \<Rightarrow> Inl e
      | Inr q' \<Rightarrow> cake_clear_tins cs q')"

definition cake_reset :: "cake_sched_data \<Rightarrow> fault + cake_sched_data" where
  "cake_reset q = cake_clear_tins [0..<CAKE_MAX_TINS] q"

section \<open>\<open>cake_dequeue\<close>\<close>

text \<open>
  One round of the loop that chooses a tin (lines 561-575): a tin whose deficit is not
  positive is credited, then the cursor moves on and wraps at \<open>tin_cnt\<close>.  The pointer
  \<open>b\<close> of the source moves with \<open>q->cur_tin\<close> and is \<open>tins q (unat (cur_tin q))\<close> here.
\<close>

definition cake_tin_credit :: "u64 \<Rightarrow> cake_tin_data \<Rightarrow> cake_tin_data" where
  "cake_tin_credit now b =
     (if sint (tin_deficit b) \<le> 0 then
        b\<lparr>tin_deficit := tin_deficit b +
             ucast (if tin_time_next_packet b > now then tin_quantum_band b
                    else tin_quantum_prio b)\<rparr>
      else b)"

definition cake_tin_skip :: "u64 \<Rightarrow> cake_sched_data \<Rightarrow> cake_sched_data" where
  "cake_tin_skip now q =
     (let q1 = upd_tin (unat (cur_tin q)) (cake_tin_credit now) q;
          c = cur_tin q1 + 1
      in if c \<ge> tin_cnt q1 then q1\<lparr>cur_tin := 0\<rparr> else q1\<lparr>cur_tin := c\<rparr>)"

text \<open>
  The loops of \<open>cake_dequeue\<close> have no bound of their own in the source; the model gives
  them fuel, and \<open>None\<close> says that the fuel ran out.
\<close>

fun cake_choose_tin :: "nat \<Rightarrow> u64 \<Rightarrow> cake_sched_data \<Rightarrow> cake_sched_data option" where
  "cake_choose_tin n now q =
     (let b = tins q (unat (cur_tin q)) in
      if tin_backlog b = 0 \<or> sint (tin_deficit b) \<le> 0 then
        (case n of 0 \<Rightarrow> None | Suc m \<Rightarrow> cake_choose_tin m now (cake_tin_skip now q))
      else Some q)"

declare cake_choose_tin.simps [simp del]

text \<open>\<open>list_del_init\<close> and \<open>list_move_tail\<close> onto \<open>old_flows\<close> for the node of a flow.\<close>

definition list_del_init :: "nat \<Rightarrow> cake_tin_data \<Rightarrow> cake_tin_data" where
  "list_del_init idx b =
     b\<lparr>new_flows := removeAll idx (new_flows b), old_flows := removeAll idx (old_flows b)\<rparr>"

definition list_move_tail_old :: "nat \<Rightarrow> cake_tin_data \<Rightarrow> cake_tin_data" where
  "list_move_tail_old idx b =
     b\<lparr>new_flows := removeAll idx (new_flows b), old_flows := removeAll idx (old_flows b) @ [idx]\<rparr>"

text \<open>
  The label \<open>retry\<close> (lines 577-600).  The result is either the jump back to \<open>begin\<close>
  of the branch marked "shouldn't ever happen", or the flow to serve, with whether it was
  taken from \<open>new_flows\<close>.
\<close>

datatype service = Goto_Begin cake_sched_data | Serve cake_sched_data nat bool

definition cake_list_head :: "cake_tin_data \<Rightarrow> (bool \<times> nat) option" where
  "cake_list_head b =
     (case new_flows b of
        idx # rest \<Rightarrow> Some (True, idx)
      | [] \<Rightarrow> (case old_flows b of idx # rest \<Rightarrow> Some (False, idx) | [] \<Rightarrow> None))"

definition cake_flow_requeue :: "nat \<Rightarrow> bool \<Rightarrow> cake_tin_data \<Rightarrow> cake_tin_data" where
  "cake_flow_requeue idx from_new b =
     (let b1 = upd_flow idx (\<lambda>f. f\<lparr>deficit := deficit f + ucast (quantum b)\<rparr>) b;
          b2 = list_move_tail_old idx b1
      in if from_new then b2\<lparr>bulk_flow_count := bulk_flow_count b2 + 1\<rparr> else b2)"

fun cake_retry :: "nat \<Rightarrow> cake_sched_data \<Rightarrow> service option" where
  "cake_retry n q =
     (let t = unat (cur_tin q); b = tins q t in
      case cake_list_head b of
        None \<Rightarrow> Some (Goto_Begin (upd_tin t (\<lambda>b. b\<lparr>tin_backlog := 0\<rparr>) q))
      | Some (from_new, idx) \<Rightarrow>
          let q1 = q\<lparr>cur_flow := of_nat idx\<rparr> in
          if sint (deficit (flows b idx)) \<le> 0 then
            (case n of
               0 \<Rightarrow> None
             | Suc m \<Rightarrow> cake_retry m (upd_tin t (cake_flow_requeue idx from_new) q1))
          else Some (Serve q1 idx from_new))"

declare cake_retry.simps [simp del]

text \<open>
  Lines 602-632: the call of \<open>codel_dequeue\<close> on the flow, the drop and mark statistics,
  and, when CoDel returns no packet, the move of the flow off its list.
\<close>

definition cake_codel_stats :: "nat \<Rightarrow> u16 \<Rightarrow> u16 \<Rightarrow> cake_tin_data \<Rightarrow> cake_tin_data" where
  "cake_codel_stats idx prev_drop_count prev_ecn_mark b =
     (let v = cvars (flows b idx);
          d = (ucast (drop_count v) - ucast prev_drop_count :: u32);
          m = (ucast (ecn_mark v) - ucast prev_ecn_mark :: u32)
      in (upd_flow idx (\<lambda>f. f\<lparr>cvars := (cvars f)\<lparr>ecn_mark := 0\<rparr>, dropped := dropped f + d\<rparr>) b)
           \<lparr>tin_dropped := tin_dropped b + d, tin_ecn_mark := tin_ecn_mark b + m\<rparr>)"

definition cake_flow_emptied :: "nat \<Rightarrow> bool \<Rightarrow> cake_tin_data \<Rightarrow> cake_tin_data" where
  "cake_flow_emptied idx from_new b =
     (if from_new \<and> old_flows b \<noteq> [] then
        (let b1 = list_move_tail_old idx b in b1\<lparr>bulk_flow_count := bulk_flow_count b1 + 1\<rparr>)
      else
        (let b1 = list_del_init idx b in
         if \<not> from_new then b1\<lparr>bulk_flow_count := bulk_flow_count b1 - 1\<rparr> else b1))"

definition cake_serve :: "codel_model \<Rightarrow> u64 \<Rightarrow> nat \<Rightarrow> bool \<Rightarrow> cake_sched_data \<Rightarrow> sk_buff option \<times> cake_sched_data" where
  "cake_serve cm now idx from_new q =
     (let t = unat (cur_tin q);
          v = cvars (flows (tins q t) idx);
          over = (buffer_used q > drop_bit 2 (buffer_limit q) + drop_bit 1 (buffer_limit q))
      in case codel_dequeue cm now over t idx q of (r, q1) \<Rightarrow>
           let q2 = upd_tin t (cake_codel_stats idx (drop_count v) (ecn_mark v)) q1 in
           (case r of
              None \<Rightarrow> (None, upd_tin t (cake_flow_emptied idx from_new) q2)
            | Some skb \<Rightarrow>
                (Some skb,
                 if drop_count (cvars (flows (tins q2 t) idx)) \<noteq> 0 \<and> sch_qlen q2 \<noteq> 0
                 then upd_tin t (upd_flow idx (\<lambda>f. f\<lparr>cvars := (cvars f)\<lparr>drop_count := 0\<rparr>\<rparr>)) q2
                 else q2)))"

text \<open>
  Lines 634-646: the effective length is charged to the flow and the tin; the shaper
  clocks of this tin and of all tins below it, and the global one, move on by
  \<open>(len * rate_ns) >> rate_shft\<close>, computed in 64 bits.
\<close>

definition cake_tin_advance :: "u32 \<Rightarrow> cake_tin_data \<Rightarrow> cake_tin_data" where
  "cake_tin_advance n b =
     b\<lparr>tin_time_next_packet := tin_time_next_packet b +
          drop_bit (unat (tin_rate_shft b)) (ucast n * ucast (tin_rate_ns b))\<rparr>"

primrec cake_charge_tins :: "nat \<Rightarrow> u32 \<Rightarrow> (nat \<Rightarrow> cake_tin_data) \<Rightarrow> nat \<Rightarrow> cake_tin_data" where
  "cake_charge_tins 0 n ts = ts(0 := cake_tin_advance n (ts 0))"
| "cake_charge_tins (Suc i) n ts =
     cake_charge_tins i n (ts(Suc i := cake_tin_advance n (ts (Suc i))))"

definition cake_charge :: "nat \<Rightarrow> sk_buff \<Rightarrow> cake_sched_data \<Rightarrow> cake_sched_data" where
  "cake_charge idx skb q =
     (let t = unat (cur_tin q);
          n = cake_overhead q (pkt_len skb);
          q1 = upd_tin t (\<lambda>b. (upd_flow idx (\<lambda>f. f\<lparr>deficit := deficit f - n\<rparr>) b)
                                \<lparr>tin_deficit := tin_deficit b - n\<rparr>) q
      in q1\<lparr>tins := cake_charge_tins t n (tins q1),
            time_next_packet := time_next_packet q1 +
              drop_bit (unat (rate_shft q1)) (ucast n * ucast (rate_ns q1))\<rparr>)"

text \<open>
  One pass of \<open>cake_dequeue\<close> from the label \<open>begin\<close>: it ends in a \<open>return\<close> (of
  \<open>NULL\<close> or of a packet) or in \<open>goto begin\<close>.  \<open>qdisc_bstats_update\<close> and
  \<open>qdisc_tree_decrease_qlen\<close> write statistics of the framework only.
\<close>

datatype pass = Return "sk_buff option" cake_sched_data | Again cake_sched_data

definition cake_dequeue_pass :: "codel_model \<Rightarrow> nat \<Rightarrow> u64 \<Rightarrow> cake_sched_data \<Rightarrow> pass option" where
  "cake_dequeue_pass cm n now q =
     (if sch_qlen q = 0 then Some (Return None q)
      else if time_next_packet q > now then
        Some (Return None (q\<lparr>sch_overlimits := sch_overlimits q + 1,
                               watchdog := Some (time_next_packet q)\<rparr>))
      else
        (case cake_choose_tin n now q of
           None \<Rightarrow> None
         | Some q1 \<Rightarrow>
             (case cake_retry n q1 of
                None \<Rightarrow> None
              | Some (Goto_Begin q2) \<Rightarrow> Some (Again q2)
              | Some (Serve q2 idx from_new) \<Rightarrow>
                  (case cake_serve cm now idx from_new q2 of
                     (None, q3) \<Rightarrow> Some (Again q3)
                   | (Some skb, q3) \<Rightarrow>
                       Some (Return (Some skb) (cake_charge idx skb q3))))))"

text \<open>
  \<open>cake_dequeue\<close>: passes are repeated while they end in \<open>goto begin\<close>.
  \<open>Some (None, q)\<close> is the return of \<open>NULL\<close>, \<open>Some (Some skb, q)\<close> the return of a
  packet, \<open>None\<close> says that the fuel ran out.
\<close>

fun cake_dequeue :: "codel_model \<Rightarrow> nat \<Rightarrow> u64 \<Rightarrow> cake_sched_data \<Rightarrow> (sk_buff option \<times> cake_sched_data) option" where
  "cake_dequeue cm n now q =
     (case cake_dequeue_pass cm n now q of
        None \<Rightarrow> None
      | Some (Return r q') \<Rightarrow> Some (r, q')
      | Some (Again q') \<Rightarrow>
          (case n of 0 \<Rightarrow> None | Suc m \<Rightarrow> cake_dequeue cm m now q'))"

declare cake_dequeue.simps [simp del]

section \<open>Rates and configuration\<close>

text \<open>
  Modelled from the spec: the kernel constants \<open>NSEC_PER_SEC\<close>, \<open>USEC_PER_SEC\<close>, and
  the macros \<open>do_div\<close> and \<open>US2TIME\<close> (of \<open>codel5.h\<close>) are not among the sources.  The
  specification divides \<open>NSEC_PER_SEC << 32\<close> by \<open>max(R, 64)\<close> and keeps CoDel's times
  in nanoseconds, the configured ones in microseconds.  \<open>do_div\<close> divides a 64-bit value
  in place by a divisor that the kernel takes as 32 bits wide.
\<close>

definition NSEC_PER_SEC :: u64 where
  "NSEC_PER_SEC = 1000000000"

definition USEC_PER_SEC :: u32 where
  "USEC_PER_SEC = 1000000"

definition do_div :: "u64 \<Rightarrow> u64 \<Rightarrow> u64" where
  "do_div n base = n div ucast (ucast base :: u32)"

definition US2TIME :: "u32 \<Rightarrow> u64" where
  "US2TIME a = ucast a * 1000"

text \<open>The loop \<open>while (!!(rate_ns >> 32))\<close> of \<open>cake_set_rate\<close>; \<open>rate_shft\<close> is a \<open>u8\<close>.\<close>

function cake_rate_shift :: "u64 \<Rightarrow> u8 \<Rightarrow> u64 \<times> u8" where
  "cake_rate_shift r sh =
     (if drop_bit 32 r \<noteq> 0 then cake_rate_shift (drop_bit 1 r) (sh - 1) else (r, sh))"
  by pat_completeness auto
termination
proof (relation "measure (\<lambda>(r, sh). unat r)", goal_cases)
  case 1
  show ?case by simp
next
  case (2 r sh)
  then have "r \<noteq> 0" by auto
  then have "unat r \<noteq> 0" by (simp add: unat_eq_0)
  then have "unat r div 2 < unat r" by simp
  then show ?case by (simp add: drop_bit_eq_div unat_div)
qed

declare cake_rate_shift.simps [simp del]

definition MIN_RATE :: u64 where
  "MIN_RATE = 64"

definition cake_set_rate :: "cake_tin_data \<Rightarrow> u64 \<Rightarrow> cake_tin_data" where
  "cake_set_rate b rate =
     (case (if rate \<noteq> 0
            then cake_rate_shift (do_div (push_bit 32 NSEC_PER_SEC) (max MIN_RATE rate)) 32
            else (0, 0)) of
        (r, sh) \<Rightarrow>
          b\<lparr>quantum := (if rate \<noteq> 0 then ucast (max (min (drop_bit 12 rate) 1514) 300) else 1514),
            tin_rate_bps := ucast rate,
            tin_rate_ns := ucast r,
            tin_rate_shft := ucast sh\<rparr>)"

definition cake_config_besteffort :: "cake_sched_data \<Rightarrow> cake_sched_data" where
  "cake_config_besteffort q =
     (let q1 = q\<lparr>tin_cnt := 1, tin_index := (\<lambda>i. if i < 64 then 0 else tin_index q i)\<rparr> in
      upd_tin 0 (\<lambda>b. (cake_set_rate b (ucast (rate_bps q1)))
                        \<lparr>tin_quantum_band := 65535, tin_quantum_prio := 65535\<rparr>) q1)"

text \<open>
  The loop over the tins shared by the precedence and the eight-class modes: the rate
  falls by 7/8, \<open>quantum1\<close> grows by 3/2 and \<open>quantum2\<close> falls by 7/8 per tin.
\<close>

definition cake_config_tin :: "nat \<Rightarrow> (nat \<Rightarrow> cake_tin_data) \<times> u64 \<times> u32 \<times> u32 \<Rightarrow> (nat \<Rightarrow> cake_tin_data) \<times> u64 \<times> u32 \<times> u32" where
  "cake_config_tin i st =
     (case st of (ts, rate, quantum1, quantum2) \<Rightarrow>
        (ts(i := (cake_set_rate (ts i) rate)
                   \<lparr>tin_quantum_prio := max 1 (ucast quantum1),
                    tin_quantum_band := max 1 (ucast quantum2)\<rparr>),
         drop_bit 3 (rate * 7), drop_bit 1 (quantum1 * 3), drop_bit 3 (quantum2 * 7)))"

definition cake_config_tins :: "cake_sched_data \<Rightarrow> cake_sched_data" where
  "cake_config_tins q =
     q\<lparr>tins := fst (fold cake_config_tin [0..<unat (tin_cnt q)]
                       (tins q, ucast (rate_bps q), 256, 256))\<rparr>"

definition cake_config_precedence :: "cake_sched_data \<Rightarrow> cake_sched_data" where
  "cake_config_precedence q =
     (let q1 = q\<lparr>tin_cnt := 8\<rparr>;
          q2 = q1\<lparr>tin_index := (\<lambda>i. if i < 64
                                   then ucast (min (drop_bit 3 (of_nat i :: u32)) (ucast (tin_cnt q1)))
                                   else tin_index q1 i)\<rparr>
      in cake_config_tins q2)"

text \<open>The codepoint tables; the \<open>AFxy\<close> codepoints are set by the loop \<open>i = 2, 4, 6\<close>.\<close>

definition diffserv8_index :: "nat \<Rightarrow> u8" where
  "diffserv8_index =
     (fold (\<lambda>i ix. ix(0x08 + i := 1, 0x10 + i := 4, 0x18 + i := 3, 0x20 + i := 3)) [2, 4, 6]
        ((\<lambda>i. 2)(0x08 := 0, 0x02 := 1, 0x18 := 3, 0x04 := 4, 0x01 := 5, 0x10 := 5,
                 0x20 := 6, 0x28 := 6, 0x2c := 6, 0x2e := 6, 0x30 := 7, 0x38 := 7)))"

definition cake_config_diffserv8 :: "cake_sched_data \<Rightarrow> cake_sched_data" where
  "cake_config_diffserv8 q =
     (let q1 = q\<lparr>tin_cnt := 8,
                 tin_index := (\<lambda>i. if i < 64 then diffserv8_index i else tin_index q i)\<rparr>
      in cake_config_tins q1)"

definition diffserv4_index :: "nat \<Rightarrow> u8" where
  "diffserv4_index =
     (fold (\<lambda>i ix. ix(0x10 + i := 2, 0x18 + i := 2, 0x20 + i := 2)) [2, 4, 6]
        ((\<lambda>i. 1)(0x08 := 0, 0x18 := 2, 0x04 := 2, 0x01 := 2, 0x10 := 2,
                 0x20 := 3, 0x28 := 3, 0x2c := 3, 0x2e := 3, 0x30 := 3, 0x38 := 3)))"

definition cake_config_diffserv4 :: "cake_sched_data \<Rightarrow> cake_sched_data" where
  "cake_config_diffserv4 q =
     (let rate = (ucast (rate_bps q) :: u64);
          quantum = (256 :: u32);
          q1 = q\<lparr>tin_cnt := 4,
                 tin_index := (\<lambda>i. if i < 64 then diffserv4_index i else tin_index q i)\<rparr>;
          q2 = upd_tin 0 (\<lambda>b. cake_set_rate b rate) q1;
          q3 = upd_tin 1 (\<lambda>b. cake_set_rate b (rate - drop_bit 4 rate)) q2;
          q4 = upd_tin 2 (\<lambda>b. cake_set_rate b (rate - drop_bit 2 rate)) q3;
          q5 = upd_tin 3 (\<lambda>b. cake_set_rate b (drop_bit 2 rate)) q4;
          q6 = upd_tin 0 (\<lambda>b. b\<lparr>tin_quantum_prio := ucast (drop_bit 4 quantum)\<rparr>) q5;
          q7 = upd_tin 1 (\<lambda>b. b\<lparr>tin_quantum_prio := ucast quantum\<rparr>) q6;
          q8 = upd_tin 2 (\<lambda>b. b\<lparr>tin_quantum_prio := ucast (push_bit 2 quantum)\<rparr>) q7;
          q9 = upd_tin 3 (\<lambda>b. b\<lparr>tin_quantum_prio := ucast (push_bit 4 quantum)\<rparr>) q8;
          q10 = upd_tin 0 (\<lambda>b. b\<lparr>tin_quantum_band := ucast (drop_bit 4 quantum)\<rparr>) q9;
          q11 = upd_tin 1 (\<lambda>b. b\<lparr>tin_quantum_band := ucast (drop_bit 3 quantum + drop_bit 4 quantum)\<rparr>) q10;
          q12 = upd_tin 2 (\<lambda>b. b\<lparr>tin_quantum_band := ucast (drop_bit 1 quantum)\<rparr>) q11
      in upd_tin 3 (\<lambda>b. b\<lparr>tin_quantum_band := ucast (drop_bit 2 quantum)\<rparr>) q12)"

text \<open>The \<open>switch\<close> on the mode at the head of \<open>cake_reconfigure\<close>.\<close>

definition cake_mode_config :: "cake_sched_data \<Rightarrow> cake_sched_data" where
  "cake_mode_config q =
     (if tin_mode q = CAKE_MODE_PRECEDENCE then cake_config_precedence q
      else if tin_mode q = CAKE_MODE_DIFFSERV8 then cake_config_diffserv8 q
      else if tin_mode q = CAKE_MODE_DIFFSERV4 then cake_config_diffserv4 q
      else cake_config_besteffort q)"

text \<open>
  \<open>cake_reconfigure\<close>: the tins of the mode, the tins beyond \<open>tin_cnt\<close> cleared, the
  global rate taken from tin 0, the buffer limit and the CoDel parameters.
\<close>

definition cake_reconfigure :: "cake_sched_data \<Rightarrow> fault + cake_sched_data" where
  "cake_reconfigure q =
     (let q1 = cake_mode_config q
      in case cake_clear_tins [unat (tin_cnt q1)..<CAKE_MAX_TINS] q1 of
           Inl e \<Rightarrow> Inl e
         | Inr q2 \<Rightarrow>
             let q3 = q2\<lparr>rate_ns := tin_rate_ns (tins q2 0),
                         rate_shft := tin_rate_shft (tins q2 0)\<rparr>;
                 lim = (if buffer_config_limit q3 \<noteq> 0 then buffer_config_limit q3
                        else if rate_bps q3 \<noteq> 0 then
                          max (ucast (do_div (ucast (rate_bps q3) * ucast (interval q3))
                                        (ucast (USEC_PER_SEC div 4))))
                              65536
                        else - 1);
                 q4 = q3\<lparr>buffer_limit := lim,
                         cparams := \<lparr>cp_target = max (US2TIME (target q3)) 0,
                                     cp_interval = US2TIME (interval q3)\<rparr>,
                         sch_can_bypass := (rate_bps q3 = 0)\<rparr>
             in Inr (q4\<lparr>buffer_limit :=
                          min (buffer_limit q4)
                              (max (sch_limit q4 * sch_mtu q4) (buffer_config_limit q4))\<rparr>))"

section \<open>\<open>cake_change\<close> and \<open>cake_init\<close>\<close>

text \<open>
  The netlink attributes after \<open>nla_parse_nested\<close>: each is present or not.  A blob that
  does not parse carries the error code.
\<close>

record cake_attrs =
  TCA_CAKE_BASE_RATE :: "u32 option"
  TCA_CAKE_DIFFSERV_MODE :: "u32 option"
  TCA_CAKE_ATM :: "u32 option"
  TCA_CAKE_FLOW_MODE :: "u32 option"
  TCA_CAKE_OVERHEAD :: "s32 option"
  TCA_CAKE_RTT :: "u32 option"
  TCA_CAKE_TARGET :: "u32 option"
  TCA_CAKE_AUTORATE :: "u32 option"
  TCA_CAKE_MEMORY :: "u32 option"
  TCA_CAKE_WASH :: "u32 option"

datatype nlattr = Nla_Malformed int | Nla_Attrs cake_attrs

definition EINVAL :: int where
  "EINVAL = 22"

definition ENOMEM :: int where
  "ENOMEM = 12"

definition set_flag :: "u16 \<Rightarrow> u32 option \<Rightarrow> cake_sched_data \<Rightarrow> cake_sched_data" where
  "set_flag flag a q =
     (case a of
        None \<Rightarrow> q
      | Some v \<Rightarrow> if v \<noteq> 0 then q\<lparr>rate_flags := rate_flags q OR flag\<rparr>
                  else q\<lparr>rate_flags := rate_flags q AND NOT flag\<rparr>)"

text \<open>The assignments of lines 990-1038, in the order of the source.\<close>

definition cake_change_attrs :: "cake_attrs \<Rightarrow> cake_sched_data \<Rightarrow> cake_sched_data" where
  "cake_change_attrs tb q =
     (let q1 = (case TCA_CAKE_BASE_RATE tb of None \<Rightarrow> q | Some v \<Rightarrow> q\<lparr>rate_bps := v\<rparr>);
          q2 = (case TCA_CAKE_DIFFSERV_MODE tb of None \<Rightarrow> q1 | Some v \<Rightarrow> q1\<lparr>tin_mode := ucast v\<rparr>);
          q3 = set_flag CAKE_FLAG_ATM (TCA_CAKE_ATM tb) q2;
          q4 = set_flag CAKE_FLAG_WASH (TCA_CAKE_WASH tb) q3;
          q5 = (case TCA_CAKE_FLOW_MODE tb of None \<Rightarrow> q4 | Some v \<Rightarrow> q4\<lparr>flow_mode := ucast v\<rparr>);
          q6 = (case TCA_CAKE_OVERHEAD tb of None \<Rightarrow> q5 | Some v \<Rightarrow> q5\<lparr>rate_overhead := ucast v\<rparr>);
          q7 = (case TCA_CAKE_RTT tb of None \<Rightarrow> q6
                | Some v \<Rightarrow> q6\<lparr>interval := (if v = 0 then 1 else v)\<rparr>);
          q8 = (case TCA_CAKE_TARGET tb of None \<Rightarrow> q7
                | Some v \<Rightarrow> q7\<lparr>target := (if v = 0 then 1 else v)\<rparr>);
          q9 = set_flag CAKE_FLAG_AUTORATE_INGRESS (TCA_CAKE_AUTORATE tb) q8
      in (case TCA_CAKE_MEMORY tb of None \<Rightarrow> q9 | Some v \<Rightarrow> q9\<lparr>buffer_config_limit := v\<rparr>))"

text \<open>
  \<open>cake_change\<close> returns the error code (0 on success) and the state; a blob that is
  missing or does not parse leaves the state as it was.
\<close>

definition cake_change :: "nlattr option \<Rightarrow> cake_sched_data \<Rightarrow> fault + (int \<times> cake_sched_data)" where
  "cake_change opt q =
     (case opt of
        None \<Rightarrow> Inr (- EINVAL, q)
      | Some (Nla_Malformed err) \<Rightarrow> Inr (err, q)
      | Some (Nla_Attrs tb) \<Rightarrow>
          let q1 = cake_change_attrs tb q in
          if tins_alloc q1 then
            (case cake_reconfigure q1 of Inl e \<Rightarrow> Inl e | Inr q2 \<Rightarrow> Inr (0, q2))
          else Inr (0, q1))"

text \<open>
  The private area of a qdisc starts zeroed; \<open>mtu\<close> is what \<open>psched_mtu\<close> says of the
  device.
\<close>

definition zero_cvars :: codel_vars where
  "zero_cvars = \<lparr>cv_count = 0, cv_lastcount = 0, cv_dropping = False, cv_drop_next = 0,
                 cv_first_above_time = 0, drop_count = 0, ecn_mark = 0\<rparr>"

definition zero_flow :: cake_flow where
  "zero_flow = \<lparr>queue = [], deficit = 0, dropped = 0, cvars = zero_cvars\<rparr>"

definition zero_tin :: cake_tin_data where
  "zero_tin = \<lparr>flows = (\<lambda>i. zero_flow), backlogs = (\<lambda>i. 0), flows_cnt = 0, perturbation = 0,
               quantum = 0, bulk_flow_count = 0, drop_overlimit = 0, new_flows = [],
               old_flows = [], tin_time_next_packet = 0, tin_rate_ns = 0, tin_rate_bps = 0,
               tin_rate_shft = 0, tin_quantum_prio = 0, tin_quantum_band = 0, tin_deficit = 0,
               tin_backlog = 0, tin_dropped = 0, tin_ecn_mark = 0, packets = 0, bytes = 0\<rparr>"

definition zero_sched :: "u32 \<Rightarrow> cake_sched_data" where
  "zero_sched mtu =
     \<lparr>tins = (\<lambda>t. zero_tin), tins_alloc = False,
      cparams = \<lparr>cp_target = 0, cp_interval = 0\<rparr>, tin_cnt = 0, tin_mode = 0, flow_mode = 0,
      rate_shft = 0, time_next_packet = 0, rate_ns = 0, rate_bps = 0, rate_flags = 0,
      rate_overhead = 0, interval = 0, target = 0, buffer_used = 0, buffer_limit = 0,
      buffer_config_limit = 0, cur_tin = 0, cur_flow = 0, watchdog = None,
      tin_index = (\<lambda>i. 0), sch_limit = 0, sch_qlen = 0, sch_backlog = 0, sch_drops = 0,
      sch_overlimits = 0, sch_can_bypass = False, sch_mtu = mtu\<rparr>"

text \<open>
  The allocation loop of \<open>cake_init\<close> (lines 1113-1135) for one tin; \<open>seed\<close> is the value
  of \<open>prandom_u32\<close>.  The arrays come zeroed from \<open>cake_zalloc\<close>.
\<close>

definition cake_init_tin :: "u32 \<Rightarrow> cake_tin_data \<Rightarrow> cake_tin_data" where
  "cake_init_tin seed b =
     b\<lparr>flows_cnt := 1024, perturbation := seed, new_flows := [], old_flows := [],
       bulk_flow_count := 0, flows := (\<lambda>i. zero_flow), backlogs := (\<lambda>i. 0)\<rparr>"

text \<open>
  \<open>cake_init\<close>: \<open>alloc_ok\<close> says whether the allocations succeed, \<open>seeds\<close> are the
  perturbations drawn for the tins.
\<close>

definition cake_init :: "(nat \<Rightarrow> u32) \<Rightarrow> bool \<Rightarrow> nlattr option \<Rightarrow> cake_sched_data \<Rightarrow> fault + (int \<times> cake_sched_data)" where
  "cake_init seeds alloc_ok opt q =
     (let q1 = q\<lparr>sch_limit := 10240, tin_mode := CAKE_MODE_DIFFSERV4,
                 flow_mode := CAKE_FLOW_FLOWS, rate_bps := 0, interval := 100000,
                 target := 5000, cur_tin := 0, cur_flow := 0\<rparr>
      in case (if opt = None then Inr (0, q1) else cake_change opt q1) of
           Inl e \<Rightarrow> Inl e
         | Inr (err, q2) \<Rightarrow>
             if err \<noteq> 0 then Inr (err, q2)
             else if \<not> alloc_ok then Inr (- ENOMEM, q2\<lparr>watchdog := None\<rparr>)
             else
               (let q3 = q2\<lparr>watchdog := None, tins_alloc := True,
                            tins := (\<lambda>t. if t < CAKE_MAX_TINS then cake_init_tin (seeds t) zero_tin
                                          else tins q2 t)\<rparr>
                in case cake_reconfigure q3 of
                     Inl e \<Rightarrow> Inl e
                   | Inr q4 \<Rightarrow> Inr (0, q4)))"

section \<open>Example states\<close>

definition no_attrs :: cake_attrs where
  "no_attrs = \<lparr>TCA_CAKE_BASE_RATE = None, TCA_CAKE_DIFFSERV_MODE = None, TCA_CAKE_ATM = None,
               TCA_CAKE_FLOW_MODE = None, TCA_CAKE_OVERHEAD = None, TCA_CAKE_RTT = None,
               TCA_CAKE_TARGET = None, TCA_CAKE_AUTORATE = None, TCA_CAKE_MEMORY = None,
               TCA_CAKE_WASH = None\<rparr>"

text \<open>
  Four tins with the weights of the four-class mode; tin 3 has used up its deficit and
  its shaper clock (10) is ahead of the time 5.
\<close>

definition busy_tin :: cake_tin_data where
  "busy_tin = zero_tin\<lparr>flows_cnt := 1024, tin_time_next_packet := 10,
                       tin_quantum_prio := 4096, tin_quantum_band := 64, tin_deficit := 0\<rparr>"

definition busy_sched :: cake_sched_data where
  "busy_sched = (zero_sched 1514)\<lparr>tins := (\<lambda>t. zero_tin)(3 := busy_tin), tins_alloc := True,
                                  tin_cnt := 4, cur_tin := 3\<rparr>"

text \<open>
  A best-effort engine shaped to 1250000 bytes per second, as \<open>cake_init\<close> and
  \<open>cake_reconfigure\<close> set it up, a CoDel that passes every packet on, and the engine
  after one packet of 1000 bytes was enqueued at time 1000.
\<close>

definition pass_all :: codel_model where
  "pass_all = \<lparr>codel_decide = (\<lambda>v p now over skb. (Codel_Pass, v)), codel_empty = (\<lambda>v. v)\<rparr>"

definition ex_tin :: cake_tin_data where
  "ex_tin = zero_tin\<lparr>flows_cnt := 1024, quantum := 305, tin_rate_ns := 3355443200,
                     tin_rate_bps := 1250000, tin_rate_shft := 22,
                     tin_quantum_prio := 65535, tin_quantum_band := 65535\<rparr>"

definition ex_sched :: cake_sched_data where
  "ex_sched = (zero_sched 1514)\<lparr>tins := (\<lambda>t. zero_tin\<lparr>flows_cnt := 1024\<rparr>)(0 := ex_tin),
     tins_alloc := True, tin_cnt := 1, tin_mode := 1, flow_mode := 4,
     rate_ns := 3355443200, rate_shft := 22, rate_bps := 1250000,
     interval := 100000, target := 5000, buffer_limit := 500000, sch_limit := 10240,
     cparams := \<lparr>cp_target = 5000000, cp_interval = 100000000\<rparr>,
     cur_tin := 7, cur_flow := 1024\<rparr>"

definition sample_skb :: "u32 \<Rightarrow> sk_buff" where
  "sample_skb n = \<lparr>skb_len = n, pkt_len = n, truesize = n + 256, protocol = ETH_P_IP,
                   dsfield = 0, flow_hash = 0, enqueue_time = 0\<rparr>"

definition the_state :: "fault + ('a \<times> cake_sched_data) \<Rightarrow> cake_sched_data" where
  "the_state r = (case r of Inr (x, q) \<Rightarrow> q | Inl e \<Rightarrow> zero_sched 0)"

definition ex_loaded :: cake_sched_data where
  "ex_loaded = the_state (cake_enqueue 1000 Not_GSO (sample_skb 1000) ex_sched)"

lemmas ex_defs = ex_loaded_def the_state_def ex_sched_def ex_tin_def zero_sched_def zero_tin_def
  zero_flow_def zero_cvars_def sample_skb_def pass_all_def

lemmas enq_defs = cake_enqueue_def cake_classify_def cake_hash_def reciprocal_scale_def
  cake_unstale_def cake_enqueue_plain_def cake_enqueue_flowchain_def flowchain_empty_def
  cake_enqueue_overflow_def upd_tin_def upd_flow_def flow_queue_add_def Let_def
  cake_wash_diffserv_def cake_handle_diffserv_def change_dsfield_def
  CAKE_MODE_BESTEFFORT_def CAKE_FLAG_WASH_def CAKE_FLOW_NONE_def

lemmas deq_defs = cake_dequeue.simps cake_dequeue_pass_def cake_choose_tin.simps cake_retry.simps
  cake_tin_skip_def cake_tin_credit_def cake_list_head_def cake_flow_requeue_def
  list_move_tail_old_def list_del_init_def cake_serve_def codel_dequeue.simps custom_dequeue_def
  dequeue_head_def set_cvars_def cake_codel_stats_def cake_flow_emptied_def cake_charge_def
  cake_overhead_def cake_tin_advance_def CAKE_FLAG_ATM_def

section \<open>Arithmetic of the effective length\<close>

lemma uint_scast_s16: "uint (scast (h :: s16) :: u32) = sint h mod 2 ^ 32"
  by (simp only: scast_eq uint_word_of_int) simp

lemma uint_add_overhead:
  "uint (n + scast h :: u32) = (uint n + sint (h :: s16)) mod 2 ^ 32"
  by (simp add: uint_word_ariths uint_scast_s16 mod_add_right_eq)

lemma sint_s16_bounds: "- 32768 \<le> sint (h :: s16) \<and> sint h < 32768"
  using sint_ge[of h] sint_lt[of h] by simp

lemma mod_2_32_neg:
  assumes "(x::int) < 0" and "- 32768 \<le> x"
  shows "x mod 2 ^ 32 = 2 ^ 32 + x"
proof -
  have "(x + 2 ^ 32) mod 2 ^ 32 = x + 2 ^ 32"
    using assms by (intro mod_pos_pos_trivial) auto
  then show ?thesis by (simp add: add.commute)
qed

lemma div_48_round_up:
  "(x + 47) div 48 = (if x mod 48 = 0 then x div 48 else x div 48 + (1::int))"
proof -
  have r: "0 \<le> x mod 48" "x mod 48 < 48" by simp_all
  have "x + 47 = (x mod 48 + 47) + (x div 48) * 48" by simp
  then have "(x + 47) div 48 = (x mod 48 + 47 + (x div 48) * 48) div 48" by simp
  also have "\<dots> = x div 48 + (x mod 48 + 47) div 48"
    by (rule div_mult_self1) simp
  finally have e: "(x + 47) div 48 = x div 48 + (x mod 48 + 47) div 48" .
  show ?thesis
  proof (cases "x mod 48 = 0")
    case True
    then show ?thesis using e by simp
  next
    case False
    with r have "1 \<le> x mod 48" by linarith
    then have z: "(x mod 48 - 1) div 48 = 0"
      using r(2) by (intro div_pos_pos_trivial) auto
    have "(x mod 48 + 47) div 48 = (x mod 48 - 1 + 1 * 48) div 48" by simp
    also have "\<dots> = 1 + (x mod 48 - 1) div 48"
      by (rule div_mult_self1) simp
    finally have "(x mod 48 + 47) div 48 = 1" using z by simp
    then show ?thesis using e False by simp
  qed
qed

lemma ceiling_div_48: "\<lceil>real_of_int x / 48\<rceil> = (x + 47) div 48"
proof -
  have "\<lceil>real_of_int x / 48\<rceil> = - (- x div 48)"
    using ceiling_divide_eq_div[of x 48] by simp
  also have "\<dots> = (x + 47) div 48"
    by (simp add: div_48_round_up zdiv_zminus1_eq_if)
  finally show ?thesis .
qed

lemma atm_cells_u32:
  assumes "0 \<le> x" and "((x + 47) div 48) * 53 < 2 ^ 32" and "uint (w::u32) = x"
  shows "uint (((w + 47) div 48) * 53) = ((x + 47) div 48) * 53"
proof -
  have b: "x + 47 < 2 ^ 32" using assms(1,2) by simp
  have 1: "uint (w + 47) = x + 47"
    using assms(1,3) b by (simp add: uint_word_ariths mod_pos_pos_trivial)
  have 2: "uint ((w + 47) div 48) = (x + 47) div 48"
    by (simp add: uint_div 1)
  show ?thesis
    using assms(1,2) by (simp add: uint_word_ariths 2 mod_pos_pos_trivial)
qed

lemma cake_charge_tins_apply:
  "cake_charge_tins t n ts i = (if i \<le> t then cake_tin_advance n (ts i) else ts i)"
  by (induction t arbitrary: ts) (auto simp: le_Suc_eq)

lemma cake_charge_tin:
  "tins (cake_charge idx skb q) i =
     (let t = unat (cur_tin q);
          n = cake_overhead q (pkt_len skb);
          b = (if i = t then (upd_flow idx (\<lambda>f. f\<lparr>deficit := deficit f - n\<rparr>) (tins q i))
                              \<lparr>tin_deficit := tin_deficit (tins q i) - n\<rparr>
               else tins q i)
      in if i \<le> t then cake_tin_advance n b else b)"
  by (simp add: cake_charge_def Let_def cake_charge_tins_apply upd_tin_def)

lemma cake_charge_global:
  "time_next_packet (cake_charge idx skb q) =
     time_next_packet q +
       drop_bit (unat (rate_shft q)) (ucast (cake_overhead q (pkt_len skb)) * ucast (rate_ns q))"
  by (simp add: cake_charge_def Let_def upd_tin_def)

section \<open>The weights of the tin scheduler (C1)\<close>

lemma sint_ucast_u16: "sint (ucast (w :: u16) :: s32) = uint w"
proof -
  have "uint w < 2 ^ 16" using uint_lt2p[of w] by simp
  then have "uint w < 2 ^ 31" by simp
  have b: "uint w < 2 ^ 31" by fact
  have "signed_take_bit 31 (uint w) = uint w"
  proof (rule signed_take_bit_int_eq_self)
    show "- (2 ^ 31) \<le> uint w" by (rule order_trans[of _ 0]) simp_all
    show "uint w < 2 ^ 31" by (rule b)
  qed
  then show ?thesis
    by (simp add: sint_uint uint_up_ucast is_up)
qed

lemma sint_credit:
  assumes "sint (d :: s32) \<le> 0"
  shows "sint (d + ucast (w :: u16)) = sint d + uint w"
proof -
  have w: "0 \<le> uint w" "uint w < 65536" using uint_lt2p[of w] by simp_all
  have d: "- (2 ^ 31) \<le> sint d" using sint_ge[of d] by simp
  have "sint (d + ucast w) = signed_take_bit 31 (sint d + sint (ucast w :: s32))"
    by (simp add: sint_word_ariths)
  also have "\<dots> = signed_take_bit 31 (sint d + uint w)" by (simp only: sint_ucast_u16)
  also have "\<dots> = sint d + uint w"
  proof (rule signed_take_bit_int_eq_self)
    show "- (2 ^ 31) \<le> sint d + uint w" using add_mono[OF d uint_ge_0[of w]] by simp
    show "sint d + uint w < 2 ^ 31" using assms w(2) by simp
  qed
  finally show ?thesis .
qed

text \<open>
  C1, as amended.  In the loop of \<open>cake_dequeue\<close> that chooses a tin, a tin whose
  \<open>tin_deficit\<close> is not positive is skipped, and it is credited \<open>tin_quantum_band\<close> when
  its \<open>tin_time_next_packet\<close> is still in the future relative to \<open>now\<close>, and
  \<open>tin_quantum_prio\<close> otherwise.  The credit is exact as a signed number.
\<close>

theorem cake_tin_skip_credit:
  assumes "sint (tin_deficit (tins q (unat (cur_tin q)))) \<le> 0"
  shows "cake_choose_tin (Suc n) now q = cake_choose_tin n now (cake_tin_skip now q) \<and>
         tin_deficit (tins (cake_tin_skip now q) (unat (cur_tin q))) =
           tin_deficit (tins q (unat (cur_tin q))) +
             ucast (if tin_time_next_packet (tins q (unat (cur_tin q))) > now
                    then tin_quantum_band (tins q (unat (cur_tin q)))
                    else tin_quantum_prio (tins q (unat (cur_tin q)))) \<and>
         sint (tin_deficit (tins (cake_tin_skip now q) (unat (cur_tin q)))) =
           sint (tin_deficit (tins q (unat (cur_tin q)))) +
             uint (if tin_time_next_packet (tins q (unat (cur_tin q))) > now
                   then tin_quantum_band (tins q (unat (cur_tin q)))
                   else tin_quantum_prio (tins q (unat (cur_tin q))))"
proof -
  let ?b = "tins q (unat (cur_tin q))"
  let ?w = "if tin_time_next_packet ?b > now then tin_quantum_band ?b else tin_quantum_prio ?b"
  have loop: "cake_choose_tin (Suc n) now q = cake_choose_tin n now (cake_tin_skip now q)"
    using assms by (simp add: cake_choose_tin.simps[of "Suc n"])
  have t: "tins (cake_tin_skip now q) (unat (cur_tin q)) = cake_tin_credit now ?b"
    by (simp add: cake_tin_skip_def Let_def upd_tin_def)
  have c: "tin_deficit (cake_tin_credit now ?b) = tin_deficit ?b + ucast ?w"
    using assms by (simp add: cake_tin_credit_def)
  have "sint (tin_deficit ?b + ucast ?w) = sint (tin_deficit ?b) + uint ?w"
    using assms by (rule sint_credit)
  with loop t c show ?thesis by simp
qed

theorem cake_tin_skip_credit_witness:
  "sint (tin_deficit (tins busy_sched (unat (cur_tin busy_sched)))) \<le> 0 \<and>
   sint (tin_deficit (tins (cake_tin_skip 20 busy_sched) (unat (cur_tin busy_sched)))) = 4096"
proof -
  have c: "unat (cur_tin busy_sched) = 3" by (simp add: busy_sched_def zero_sched_def)
  have b: "tins busy_sched 3 = busy_tin" by (simp add: busy_sched_def zero_sched_def)
  have h: "sint (tin_deficit (tins busy_sched (unat (cur_tin busy_sched)))) \<le> 0"
    by (simp add: c b busy_tin_def zero_tin_def)
  from cake_tin_skip_credit[OF h, of 0 20]
  have "sint (tin_deficit (tins (cake_tin_skip 20 busy_sched) (unat (cur_tin busy_sched)))) = 4096"
    by (simp add: c b busy_tin_def zero_tin_def)
  with h show ?thesis by (rule conjI)
qed

text \<open>
  The claim as stated has the two weights the other way round: tin 3 of \<open>busy_sched\<close>
  has no deficit left and its clock (10) is ahead of the time 5; it is credited its
  \<open>tin_quantum_band\<close> (64), not its \<open>tin_quantum_prio\<close> (4096).
\<close>

theorem cake_tin_skip_credit_counterexample:
  "sint (tin_deficit (tins busy_sched (unat (cur_tin busy_sched)))) \<le> 0 \<and>
   tin_time_next_packet (tins busy_sched (unat (cur_tin busy_sched))) > 5 \<and>
   tin_quantum_prio (tins busy_sched (unat (cur_tin busy_sched))) = 4096 \<and>
   tin_quantum_band (tins busy_sched (unat (cur_tin busy_sched))) = 64 \<and>
   tin_deficit (tins busy_sched (unat (cur_tin busy_sched))) = 0 \<and>
   tin_deficit (tins (cake_tin_skip 5 busy_sched) (unat (cur_tin busy_sched))) = 64"
  by (simp add: busy_sched_def zero_sched_def busy_tin_def zero_tin_def cake_tin_skip_def
                cake_tin_credit_def upd_tin_def Let_def)

section \<open>The rate encoding (C6)\<close>

lemma unat_drop_bit_div: "unat (drop_bit n (r :: 'a::len word)) = unat r div 2 ^ n"
  unfolding unat_drop_bit_eq by (rule drop_bit_eq_div)

lemma drop_bit_32_zero_iff: "drop_bit 32 (r :: u64) = 0 \<longleftrightarrow> unat r < 2 ^ 32"
proof -
  have "drop_bit 32 r = 0 \<longleftrightarrow> unat (drop_bit 32 r) = 0" by (simp add: unat_eq_0)
  also have "\<dots> \<longleftrightarrow> unat r div 2 ^ 32 = 0"
    by (simp only: unat_drop_bit_div)
  finally show ?thesis by (simp add: div_eq_0_iff)
qed


lemma cake_rate_shift_spec:
  "unat r < 2 ^ (32 + j) \<Longrightarrow> cake_rate_shift r sh = (r', sh') \<Longrightarrow>
     \<exists>k\<le>j. unat r' = unat r div 2 ^ k \<and> sh' = sh - of_nat k \<and> unat r' < 2 ^ 32"
proof (induction j arbitrary: r sh)
  case 0
  then have "drop_bit 32 r = 0" by (simp add: drop_bit_32_zero_iff)
  with "0.prems"(2) have "r' = r" "sh' = sh" by (simp_all add: cake_rate_shift.simps[of r sh])
  with "0.prems"(1) show ?case by simp
next
  case (Suc j)
  show ?case
  proof (cases "drop_bit 32 r = 0")
    case True
    with Suc.prems(2) have e: "r' = r" "sh' = sh" by (simp_all add: cake_rate_shift.simps[of r sh])
    from True have "unat r < 2 ^ 32" by (simp add: drop_bit_32_zero_iff)
    with e have "unat r' = unat r div 2 ^ 0 \<and> sh' = sh - of_nat 0 \<and> unat r' < 2 ^ 32" by simp
    then show ?thesis by blast
  next
    case False
    with Suc.prems(2) have rec: "cake_rate_shift (drop_bit 1 r) (sh - 1) = (r', sh')"
      by (simp add: cake_rate_shift.simps[of r sh])
    have e: "(2::nat) ^ (32 + Suc j) = 2 * 2 ^ (32 + j)"
      by (simp only: add_Suc_right power_Suc)
    have "unat r < 2 * 2 ^ (32 + j)" using Suc.prems(1) unfolding e .
    then have "unat r div 2 < 2 ^ (32 + j)" by (rule less_mult_imp_div_less[OF _, of _ _ 2, simplified mult.commute[of _ 2]])
    then have "unat r div 2 ^ 1 < 2 ^ (32 + j)" by (simp only: power_one_right)
    then have "unat (drop_bit 1 r) < 2 ^ (32 + j)"
      by (simp only: unat_drop_bit_div)
    from Suc.IH[OF this rec] obtain k where k: "k \<le> j"
      "unat r' = unat (drop_bit 1 r) div 2 ^ k" "sh' = sh - 1 - of_nat k" "unat r' < 2 ^ 32"
      by blast
    have "unat r' = unat r div 2 ^ 1 div 2 ^ k"
      using k(2) by (simp only: unat_drop_bit_div)
    then have "unat r' = unat r div 2 ^ Suc k"
      by (simp add: div_mult2_eq)
    moreover have "sh' = sh - of_nat (Suc k)" using k(3) by simp
    ultimately show ?thesis using k(1,4) by (intro exI[of _ "Suc k"]) simp
  qed
qed


lemma unat_max_word: "unat (max a b) = max (unat a) (unat (b :: 'a::len word))"
  by (simp add: max_def word_le_nat_alt)

lemma unat_min_word: "unat (min a b) = min (unat a) (unat (b :: 'a::len word))"
  by (simp add: min_def word_le_nat_alt)

lemma unat_ucast_small:
  "unat (w :: 'a::len word) < 2 ^ LENGTH('b) \<Longrightarrow> unat (ucast w :: 'b::len word) = unat w"
  by (simp add: unsigned_ucast_eq take_bit_nat_eq_self)

lemma unat_ucast_u32_u64: "unat (ucast (R :: u32) :: u64) = unat R"
proof (rule unat_ucast_small)
  have "unat R < 2 ^ 32" using unsigned_less[of R, where ?'a = nat] by simp
  also have "(2::nat) ^ 32 < 2 ^ LENGTH(64)" by simp
  finally show "unat R < 2 ^ LENGTH(64)" .
qed

lemma unat_ucast_u64_u32: "unat (r :: u64) < 2 ^ 32 \<Longrightarrow> unat (ucast r :: u32) = unat r"
  by (rule unat_ucast_small) simp

lemma unat_ucast_u8_u16: "unat (ucast (w :: u8) :: u16) = unat w"
proof (rule unat_ucast_small)
  have "unat w < 2 ^ 8" using unsigned_less[of w, where ?'a = nat] by simp
  also have "(2::nat) ^ 8 < 2 ^ LENGTH(16)" by simp
  finally show "unat w < 2 ^ LENGTH(16)" .
qed

lemma do_div_u32:
  assumes "unat base < 2 ^ 32"
  shows "unat (do_div n base) = unat n div unat base"
proof -
  have "unat (ucast (ucast base :: u32) :: u64) = unat base"
    using assms by (simp add: unat_ucast_u32_u64 unat_ucast_u64_u32)
  then show ?thesis by (simp add: do_div_def unat_div)
qed

lemma rate_divisor:
  "unat (max MIN_RATE (ucast (R :: u32))) = max (unat R) 64 \<and>
   unat (max MIN_RATE (ucast (R :: u32))) < 2 ^ 32"
proof -
  have "unat R < 2 ^ 32" using unsigned_less[of R, where ?'a = nat] by simp
  then show ?thesis
    by (simp add: unat_max_word unat_ucast_u32_u64 MIN_RATE_def max.commute)
qed

lemma rate_ns_start:
  "unat (do_div (push_bit 32 NSEC_PER_SEC) (max MIN_RATE (ucast (R :: u32)))) =
     1000000000 * 2 ^ 32 div max (unat R) 64 \<and>
   unat (do_div (push_bit 32 NSEC_PER_SEC) (max MIN_RATE (ucast (R :: u32)))) < 2 ^ (32 + 24)"
proof -
  have n: "unat (push_bit 32 NSEC_PER_SEC) = 1000000000 * 2 ^ 32"
    by (simp add: NSEC_PER_SEC_def)
  note d1 = rate_divisor[of R, THEN conjunct1] and d2 = rate_divisor[of R, THEN conjunct2]
  have "unat (do_div (push_bit 32 NSEC_PER_SEC) (max MIN_RATE (ucast R))) =
          unat (push_bit 32 NSEC_PER_SEC) div unat (max MIN_RATE (ucast R))"
    by (rule do_div_u32[OF d2])
  then have e: "unat (do_div (push_bit 32 NSEC_PER_SEC) (max MIN_RATE (ucast R))) =
           1000000000 * 2 ^ 32 div max (unat R) 64"
    by (simp only: n d1)
  have "(1000000000 * 2 ^ 32 :: nat) div max (unat R) 64 \<le> 1000000000 * 2 ^ 32 div 64"
    by (rule div_le_mono2) simp_all
  also have "\<dots> < 2 ^ (32 + 24)" by simp
  finally show ?thesis using e by simp
qed

lemma unat_sub_u8:
  assumes "k \<le> 24"
  shows "unat (32 - of_nat k :: u8) = 32 - k"
proof -
  have k: "unat (of_nat k :: u8) = k" using assms by (simp add: unat_of_nat)
  have "of_nat k \<le> (32 :: u8)" using assms k by (simp add: word_le_nat_alt)
  then have "unat (32 - of_nat k :: u8) = unat (32 :: u8) - unat (of_nat k :: u8)"
    by (rule unat_sub)
  then show ?thesis using k by simp
qed

lemma cake_set_rate_nonzero:
  fixes R :: u32
  assumes "R \<noteq> 0"
  shows "\<exists>k\<le>24.
           unat (tin_rate_shft (cake_set_rate b (ucast R))) = 32 - k \<and>
           unat (tin_rate_ns (cake_set_rate b (ucast R))) =
             (1000000000 * 2 ^ 32 div max (unat R) 64) div 2 ^ k \<and>
           (1000000000 * 2 ^ 32 div max (unat R) 64) div 2 ^ k < 2 ^ 32"
proof -
  let ?r0 = "do_div (push_bit 32 NSEC_PER_SEC) (max MIN_RATE (ucast R))"
  have nz: "(ucast R :: u64) \<noteq> 0"
    using assms by (simp add: word_unat_eq_iff unat_ucast_u32_u64)
  obtain r' sh' where rs: "cake_rate_shift ?r0 32 = (r', sh')"
    by (cases "cake_rate_shift ?r0 32") auto
  from rate_ns_start[of R] have s: "unat ?r0 = 1000000000 * 2 ^ 32 div max (unat R) 64"
    and lt: "unat ?r0 < 2 ^ (32 + 24)" by simp_all
  from cake_rate_shift_spec[OF lt rs] obtain k where k: "k \<le> 24"
    "unat r' = unat ?r0 div 2 ^ k" "sh' = 32 - of_nat k" "unat r' < 2 ^ 32" by blast
  have sh: "unat (ucast sh' :: u16) = 32 - k"
    using unat_sub_u8[OF k(1)] k(3) by (simp add: unat_ucast_u8_u16)
  have ns: "unat (ucast r' :: u32) = unat ?r0 div 2 ^ k"
    using k(2,4) by (simp add: unat_ucast_u64_u32)
  have "tin_rate_shft (cake_set_rate b (ucast R)) = ucast sh'"
    "tin_rate_ns (cake_set_rate b (ucast R)) = ucast r'"
    using nz rs by (simp_all add: cake_set_rate_def)
  with sh ns k(1,2,4) s show ?thesis by (intro exI[of _ k]) simp
qed

lemma cake_set_rate_quantum:
  fixes R :: u32
  assumes "R \<noteq> 0"
  shows "unat (quantum (cake_set_rate b (ucast R))) = max 300 (min 1514 (unat R div 4096))"
proof -
  have nz: "(ucast R :: u64) \<noteq> 0"
    using assms by (simp add: word_unat_eq_iff unat_ucast_u32_u64)
  let ?c = "max (min (drop_bit 12 (ucast R :: u64)) 1514) 300"
  have c: "unat ?c = max 300 (min 1514 (unat R div 4096))"
    by (simp add: unat_max_word unat_min_word unat_drop_bit_div unat_ucast_u32_u64
                  max.commute min.commute)
  then have "unat ?c < 2 ^ LENGTH(16)" by simp
  then have "unat (ucast ?c :: u16) = unat ?c" by (rule unat_ucast_small)
  with c nz show ?thesis
    by (cases "cake_rate_shift (do_div (push_bit 32 NSEC_PER_SEC) (max MIN_RATE (ucast R))) 32")
       (simp add: cake_set_rate_def)
qed

text \<open>
  C6.  For every configured byte rate \<open>R\<close> (the rates are \<open>u32\<close> values), setting a
  tin's rate with \<open>R > 0\<close> yields \<open>rate_shft \<le> 32\<close> and a \<open>rate_ns\<close> that is
  \<open>(NSEC_PER_SEC << 32) / max(R, 64)\<close> shifted right by \<open>32 - rate_shft\<close>, a value below
  \<open>2^32\<close>; the quantum is \<open>R >> 12\<close> clamped to 300..1514.  With \<open>R = 0\<close> there is no
  shaping (\<open>rate_ns = 0\<close>) and the quantum is 1514.
\<close>

theorem cake_set_rate_encoding:
  fixes R :: u32
  shows "(R \<noteq> 0 \<longrightarrow>
            unat (tin_rate_shft (cake_set_rate b (ucast R))) \<le> 32 \<and>
            unat (tin_rate_ns (cake_set_rate b (ucast R))) =
              (1000000000 * 2 ^ 32 div max (unat R) 64)
                 div 2 ^ (32 - unat (tin_rate_shft (cake_set_rate b (ucast R)))) \<and>
            (1000000000 * 2 ^ 32 div max (unat R) 64)
                 div 2 ^ (32 - unat (tin_rate_shft (cake_set_rate b (ucast R)))) < 2 ^ 32 \<and>
            unat (quantum (cake_set_rate b (ucast R))) = max 300 (min 1514 (unat R div 4096))) \<and>
         (R = 0 \<longrightarrow>
            tin_rate_ns (cake_set_rate b (ucast R)) = 0 \<and>
            tin_rate_shft (cake_set_rate b (ucast R)) = 0 \<and>
            quantum (cake_set_rate b (ucast R)) = 1514)"
proof (intro conjI impI)
  assume nz: "R \<noteq> 0"
  from cake_set_rate_nonzero[OF nz, of b] obtain k where k: "k \<le> 24"
    "unat (tin_rate_shft (cake_set_rate b (ucast R))) = 32 - k"
    "unat (tin_rate_ns (cake_set_rate b (ucast R))) =
       (1000000000 * 2 ^ 32 div max (unat R) 64) div 2 ^ k"
    "(1000000000 * 2 ^ 32 div max (unat R) 64) div 2 ^ k < 2 ^ 32" by blast
  have e: "32 - unat (tin_rate_shft (cake_set_rate b (ucast R))) = k"
    using k(1,2) by simp
  show "unat (tin_rate_shft (cake_set_rate b (ucast R))) \<le> 32" using k(2) by simp
  show "unat (tin_rate_ns (cake_set_rate b (ucast R))) =
          (1000000000 * 2 ^ 32 div max (unat R) 64)
             div 2 ^ (32 - unat (tin_rate_shft (cake_set_rate b (ucast R))))"
    unfolding e by (rule k(3))
  show "(1000000000 * 2 ^ 32 div max (unat R) 64)
             div 2 ^ (32 - unat (tin_rate_shft (cake_set_rate b (ucast R)))) < 2 ^ 32"
    unfolding e by (rule k(4))
  show "unat (quantum (cake_set_rate b (ucast R))) = max 300 (min 1514 (unat R div 4096))"
    using nz by (rule cake_set_rate_quantum)
next
  assume z: "R = 0"
  show "tin_rate_ns (cake_set_rate b (ucast R)) = 0" using z by (simp add: cake_set_rate_def)
  show "tin_rate_shft (cake_set_rate b (ucast R)) = 0" using z by (simp add: cake_set_rate_def)
  show "quantum (cake_set_rate b (ucast R)) = 1514" using z by (simp add: cake_set_rate_def)
qed

theorem cake_set_rate_encoding_witness:
  "(1250000 :: u32) \<noteq> 0 \<and>
   unat (quantum (cake_set_rate zero_tin (ucast (1250000 :: u32)))) = 305 \<and>
   tin_rate_ns (cake_set_rate zero_tin (ucast (1250000 :: u32))) = 3355443200 \<and>
   tin_rate_shft (cake_set_rate zero_tin (ucast (1250000 :: u32))) = 22"
proof -
  have nz: "(1250000 :: u32) \<noteq> 0" by simp
  from cake_set_rate_encoding[of 1250000 zero_tin] nz
  have "unat (quantum (cake_set_rate zero_tin (ucast (1250000 :: u32)))) =
          max 300 (min 1514 (unat (1250000 :: u32) div 4096))" by blast
  then have q: "unat (quantum (cake_set_rate zero_tin (ucast (1250000 :: u32)))) = 305" by simp
  have r: "cake_rate_shift 3435973836800 32 = (3355443200, 22)"
    by (simp add: cake_rate_shift.simps)
  have d: "do_div (push_bit 32 NSEC_PER_SEC) (max MIN_RATE 1250000) = 3435973836800"
    by (simp add: do_div_def NSEC_PER_SEC_def MIN_RATE_def)
  have e: "tin_rate_ns (cake_set_rate zero_tin (ucast (1250000 :: u32))) = 3355443200 \<and>
        tin_rate_shft (cake_set_rate zero_tin (ucast (1250000 :: u32))) = 22"
    by (simp add: cake_set_rate_def d r)
  from q e have "unat (quantum (cake_set_rate zero_tin (ucast (1250000 :: u32)))) = 305 \<and>
   tin_rate_ns (cake_set_rate zero_tin (ucast (1250000 :: u32))) = 3355443200 \<and>
   tin_rate_shft (cake_set_rate zero_tin (ucast (1250000 :: u32))) = 22" by (rule conjI)
  with nz show ?thesis by (rule conjI)
qed


section \<open>Rules for the loops\<close>

lemma cursor_queue_upd [simp]:
  "cursor_queue (q\<lparr>sch_backlog := x\<rparr>) = cursor_queue q"
  "cursor_queue (q\<lparr>sch_drops := y\<rparr>) = cursor_queue q"
  by (simp_all add: cursor_queue_def)

lemma codel_dequeue_rule:
  assumes "P q"
    and pop: "\<And>q skb q1. P q \<Longrightarrow> custom_dequeue q = (Some skb, q1) \<Longrightarrow>
                 P (q1\<lparr>sch_backlog := sch_backlog q1 - pkt_len skb\<rparr>)"
    and var: "\<And>q v. P q \<Longrightarrow> P (set_cvars t idx v q)"
    and drp: "\<And>q. P q \<Longrightarrow> P (q\<lparr>sch_drops := sch_drops q + 1\<rparr>)"
  shows "P (snd (codel_dequeue cm now over t idx q))"
  using assms(1)
proof (induction "length (cursor_queue q)" arbitrary: q rule: less_induct)
  case less
  show ?case
  proof (cases "custom_dequeue q")
    case (Pair r q1)
    show ?thesis
    proof (cases r)
      case None
      with Pair custom_dequeue_None[of q q1] have "q1 = q" by simp
      with Pair None less.prems show ?thesis
        by (subst codel_dequeue.simps) (simp add: var)
    next
      case (Some skb)
      with Pair have cd: "custom_dequeue q = (Some skb, q1)" by simp
      let ?q2 = "q1\<lparr>sch_backlog := sch_backlog q1 - pkt_len skb\<rparr>"
      have p2: "P ?q2" using pop[OF less.prems cd] .
      obtain verdict v where d:
        "codel_decide cm (cvars (flows (tins ?q2 t) idx)) (cparams ?q2) now over skb = (verdict, v)"
        by (cases "codel_decide cm (cvars (flows (tins ?q2 t) idx)) (cparams ?q2) now over skb") auto
      show ?thesis
      proof (cases verdict)
        case Codel_Pass
        with cd d p2 show ?thesis
          by (subst codel_dequeue.simps) (simp add: var)
      next
        case Codel_Mark
        with cd d p2 show ?thesis
          by (subst codel_dequeue.simps) (simp add: var)
      next
        case Codel_Drop
        let ?q3 = "set_cvars t idx (v\<lparr>drop_count := drop_count v + 1\<rparr>)
                     (?q2\<lparr>sch_drops := sch_drops ?q2 + 1\<rparr>)"
        have p3: "P ?q3" using p2 by (intro var drp)
        have "length (cursor_queue ?q3) < length (cursor_queue q)"
          using custom_dequeue_Some[OF cd] by simp
        from less.hyps[OF this p3] cd d Codel_Drop show ?thesis
          by (subst codel_dequeue.simps) simp
      qed
    qed
  qed
qed

lemma codel_dequeue_None:
  "fst (codel_dequeue cm now over t idx q) = None \<Longrightarrow>
     cursor_queue (snd (codel_dequeue cm now over t idx q)) = []"
proof (induction "length (cursor_queue q)" arbitrary: q rule: less_induct)
  case less
  show ?case
  proof (cases "custom_dequeue q")
    case (Pair r q1)
    show ?thesis
    proof (cases r)
      case None
      with Pair custom_dequeue_None[of q q1] show ?thesis
        by (subst codel_dequeue.simps) simp
    next
      case (Some skb)
      with Pair have cd: "custom_dequeue q = (Some skb, q1)" by simp
      let ?q2 = "q1\<lparr>sch_backlog := sch_backlog q1 - pkt_len skb\<rparr>"
      obtain verdict v where d:
        "codel_decide cm (cvars (flows (tins ?q2 t) idx)) (cparams ?q2) now over skb = (verdict, v)"
        by (cases "codel_decide cm (cvars (flows (tins ?q2 t) idx)) (cparams ?q2) now over skb") auto
      show ?thesis
      proof (cases verdict)
        case Codel_Pass
        with cd d less.prems show ?thesis
          by (subst (asm) codel_dequeue.simps) simp
      next
        case Codel_Mark
        with cd d less.prems show ?thesis
          by (subst (asm) codel_dequeue.simps) simp
      next
        case Codel_Drop
        let ?q3 = "set_cvars t idx (v\<lparr>drop_count := drop_count v + 1\<rparr>)
                     (?q2\<lparr>sch_drops := sch_drops ?q2 + 1\<rparr>)"
        have e: "codel_dequeue cm now over t idx q = codel_dequeue cm now over t idx ?q3"
          using cd d Codel_Drop by (subst codel_dequeue.simps) simp
        have "length (cursor_queue ?q3) < length (cursor_queue q)"
          using custom_dequeue_Some[OF cd] by simp
        from less.hyps[OF this] less.prems show ?thesis unfolding e by simp
      qed
    qed
  qed
qed

lemma cake_clear_flow_rule:
  assumes "P q"
    and pop: "\<And>q skb q1. P q \<Longrightarrow> custom_dequeue q = (Some skb, q1) \<Longrightarrow> P q1"
  shows "P (cake_clear_flow q)"
  using assms(1)
proof (induction "length (cursor_queue q)" arbitrary: q rule: less_induct)
  case less
  show ?case
  proof (cases "custom_dequeue q")
    case (Pair r q1)
    show ?thesis
    proof (cases r)
      case None
      with Pair custom_dequeue_None[of q q1] less.prems show ?thesis
        by (subst cake_clear_flow.simps) simp
    next
      case (Some skb)
      with Pair have cd: "custom_dequeue q = (Some skb, q1)" by simp
      have "length (cursor_queue q1) < length (cursor_queue q)"
        using custom_dequeue_Some[OF cd] by simp
      from less.hyps[OF this pop[OF less.prems cd]] cd show ?thesis
        by (subst cake_clear_flow.simps) simp
    qed
  qed
qed

lemma cake_clear_flow_empty: "cursor_queue (cake_clear_flow q) = []"
proof (induction "length (cursor_queue q)" arbitrary: q rule: less_induct)
  case less
  show ?case
  proof (cases "custom_dequeue q")
    case (Pair r q1)
    show ?thesis
    proof (cases r)
      case None
      with Pair custom_dequeue_None[of q q1] show ?thesis
        by (subst cake_clear_flow.simps) simp
    next
      case (Some skb)
      with Pair have cd: "custom_dequeue q = (Some skb, q1)" by simp
      have "length (cursor_queue q1) < length (cursor_queue q)"
        using custom_dequeue_Some[OF cd] by simp
      from less.hyps[OF this] cd show ?thesis
        by (subst cake_clear_flow.simps) simp
    qed
  qed
qed

lemma cake_choose_tin_rule:
  assumes "cake_choose_tin n now q = Some q'" and "P q"
    and skip: "\<And>q. P q \<Longrightarrow> P (cake_tin_skip now q)"
  shows "P q' \<and> tin_backlog (tins q' (unat (cur_tin q'))) \<noteq> 0 \<and>
         0 < sint (tin_deficit (tins q' (unat (cur_tin q'))))"
  using assms(1,2)
proof (induction n arbitrary: q)
  case 0
  then show ?case by (auto simp: cake_choose_tin.simps[of 0] Let_def split: if_splits)
next
  case (Suc n)
  show ?case
  proof (cases "tin_backlog (tins q (unat (cur_tin q))) = 0 \<or> sint (tin_deficit (tins q (unat (cur_tin q)))) \<le> 0")
    case True
    with Suc.prems(1) have "cake_choose_tin n now (cake_tin_skip now q) = Some q'"
      by (simp add: cake_choose_tin.simps[of "Suc n"] Let_def)
    from Suc.IH[OF this skip[OF Suc.prems(2)]] show ?thesis .
  next
    case False
    with Suc.prems show ?thesis by (auto simp: cake_choose_tin.simps[of "Suc n"] Let_def)
  qed
qed

lemma cake_overflow_loop_rule:
  assumes "cake_overflow_loop q n = Inr (q', n')" and "P q"
    and drop: "\<And>q r q1. P q \<Longrightarrow> cake_drop q = Inr (r, q1) \<Longrightarrow> P q1"
  shows "P q' \<and> buffer_used q' \<le> buffer_limit q'"
  using assms(1,2)
proof (induction "droppable q" arbitrary: q n rule: less_induct)
  case less
  show ?case
  proof (cases "buffer_used q > buffer_limit q")
    case False
    with less.prems show ?thesis by (simp add: cake_overflow_loop.simps[of q n])
  next
    case True
    show ?thesis
    proof (cases "cake_drop q")
      case (Inl e)
      with True less.prems(1) show ?thesis by (simp add: cake_overflow_loop.simps[of q n])
    next
      case (Inr rq)
      obtain r q1 where rq: "rq = (r, q1)" by (cases rq) auto
      with Inr have d: "cake_drop q = Inr (r, q1)" by simp
      with True less.prems(1) have "cake_overflow_loop q1 (n + 1) = Inr (q', n')"
        by (simp add: cake_overflow_loop.simps[of q n])
      from less.hyps[OF cake_drop_droppable[OF d] this drop[OF less.prems(2) d]]
      show ?thesis .
    qed
  qed
qed

lemma cake_flow_requeue_backlog [simp]:
  "tin_backlog (cake_flow_requeue idx from_new b) = tin_backlog b"
  by (simp add: cake_flow_requeue_def Let_def list_move_tail_old_def upd_flow_def)

lemma cake_retry_rule:
  assumes "cake_retry n q = Some r" and "P q"
    and "tin_backlog (tins q (unat (cur_tin q))) \<noteq> 0"
    and cur: "\<And>q idx from_new. P q \<Longrightarrow>
                cake_list_head (tins q (unat (cur_tin q))) = Some (from_new, idx) \<Longrightarrow>
                P (q\<lparr>cur_flow := of_nat idx\<rparr>)"
    and req: "\<And>q idx from_new. P q \<Longrightarrow>
                cake_list_head (tins q (unat (cur_tin q))) = Some (from_new, idx) \<Longrightarrow>
                P (upd_tin (unat (cur_tin q)) (cake_flow_requeue idx from_new)
                     (q\<lparr>cur_flow := of_nat idx\<rparr>))"
    and zero: "\<And>q. P q \<Longrightarrow> tin_backlog (tins q (unat (cur_tin q))) \<noteq> 0 \<Longrightarrow>
                cake_list_head (tins q (unat (cur_tin q))) = None \<Longrightarrow>
                P (upd_tin (unat (cur_tin q)) (\<lambda>b. b\<lparr>tin_backlog := 0\<rparr>) q)"
  shows "case r of
           Goto_Begin q' \<Rightarrow> P q'
         | Serve q' idx from_new \<Rightarrow>
             P q' \<and> cur_flow q' = of_nat idx \<and> cur_tin q' = cur_tin q \<and>
             cake_list_head (tins q' (unat (cur_tin q'))) = Some (from_new, idx) \<and>
             0 < sint (deficit (flows (tins q' (unat (cur_tin q'))) idx))"
  using assms(1,2,3)
proof (induction n arbitrary: q)
  case 0
  show ?case
  proof (cases "cake_list_head (tins q (unat (cur_tin q)))")
    case None
    with "0.prems" zero[OF "0.prems"(2,3) None] show ?thesis
      by (auto simp: cake_retry.simps[of 0] Let_def)
  next
    case (Some h)
    obtain from_new idx where h: "h = (from_new, idx)" by (cases h) auto
    with Some "0.prems" cur[OF "0.prems"(2), of from_new idx] show ?thesis
      by (auto simp: cake_retry.simps[of 0] Let_def split: if_splits)
  qed
next
  case (Suc n)
  show ?case
  proof (cases "cake_list_head (tins q (unat (cur_tin q)))")
    case None
    with Suc.prems zero[OF Suc.prems(2,3) None] show ?thesis
      by (auto simp: cake_retry.simps[of "Suc n"] Let_def)
  next
    case (Some h)
    obtain from_new idx where h: "h = (from_new, idx)" by (cases h) auto
    show ?thesis
    proof (cases "sint (deficit (flows (tins q (unat (cur_tin q))) idx)) \<le> 0")
      case False
      with Some h Suc.prems cur[OF Suc.prems(2), of from_new idx] show ?thesis
        by (auto simp: cake_retry.simps[of "Suc n"] Let_def)
    next
      case True
      let ?q' = "upd_tin (unat (cur_tin q)) (cake_flow_requeue idx from_new)
                   (q\<lparr>cur_flow := of_nat idx\<rparr>)"
      from True Some h Suc.prems(1) have run: "cake_retry n ?q' = Some r"
        by (simp add: cake_retry.simps[of "Suc n"] Let_def)
      have p: "P ?q'" using req[OF Suc.prems(2)] Some h by simp
      have c: "cur_tin ?q' = cur_tin q" by (simp add: upd_tin_def)
      have b: "tin_backlog (tins ?q' (unat (cur_tin ?q'))) \<noteq> 0"
        using Suc.prems(3) by (simp add: upd_tin_def)
      from Suc.IH[OF run p b] c show ?thesis by (cases r) auto
    qed
  qed
qed

lemma cake_dequeue_pass_rule:
  assumes "cake_dequeue_pass cm n now q = Some r" and "P q"
    and skip: "\<And>q. P q \<Longrightarrow> P (cake_tin_skip now q)"
    and cur: "\<And>q idx from_new. P q \<Longrightarrow>
                cake_list_head (tins q (unat (cur_tin q))) = Some (from_new, idx) \<Longrightarrow>
                P (q\<lparr>cur_flow := of_nat idx\<rparr>)"
    and req: "\<And>q idx from_new. P q \<Longrightarrow>
                cake_list_head (tins q (unat (cur_tin q))) = Some (from_new, idx) \<Longrightarrow>
                P (upd_tin (unat (cur_tin q)) (cake_flow_requeue idx from_new)
                     (q\<lparr>cur_flow := of_nat idx\<rparr>))"
    and zero: "\<And>q. P q \<Longrightarrow> tin_backlog (tins q (unat (cur_tin q))) \<noteq> 0 \<Longrightarrow>
                cake_list_head (tins q (unat (cur_tin q))) = None \<Longrightarrow>
                P (upd_tin (unat (cur_tin q)) (\<lambda>b. b\<lparr>tin_backlog := 0\<rparr>) q)"
    and serve: "\<And>q idx from_new. P q \<Longrightarrow> cur_flow q = of_nat idx \<Longrightarrow>
                cake_list_head (tins q (unat (cur_tin q))) = Some (from_new, idx) \<Longrightarrow>
                P (snd (cake_serve cm now idx from_new q))"
    and throttle: "\<And>q. P q \<Longrightarrow>
                P (q\<lparr>sch_overlimits := sch_overlimits q + 1,
                      watchdog := Some (time_next_packet q)\<rparr>)"
  shows "case r of
           Again q' \<Rightarrow> P q'
         | Return None q' \<Rightarrow> P q'
         | Return (Some skb) q' \<Rightarrow> \<exists>q3 idx. P q3 \<and> q' = cake_charge idx skb q3"
proof (cases "sch_qlen q = 0")
  case True
  with assms(1) have "r = Return None q" by (simp add: cake_dequeue_pass_def)
  with assms(2) show ?thesis by (simp only: pass.case option.case)
next
  case nonempty: False
  show ?thesis
  proof (cases "time_next_packet q > now")
    case True
    with nonempty assms(1)
    have "r = Return None (q\<lparr>sch_overlimits := sch_overlimits q + 1,
                                watchdog := Some (time_next_packet q)\<rparr>)"
      by (simp add: cake_dequeue_pass_def)
    with throttle[OF assms(2)] show ?thesis by (simp only: pass.case option.case)
  next
    case False
    with nonempty assms(1) have
      run: "(case cake_choose_tin n now q of
               None \<Rightarrow> None
             | Some q1 \<Rightarrow>
                 (case cake_retry n q1 of
                    None \<Rightarrow> None
                  | Some (Goto_Begin q2) \<Rightarrow> Some (Again q2)
                  | Some (Serve q2 idx from_new) \<Rightarrow>
                      (case cake_serve cm now idx from_new q2 of
                         (None, q3) \<Rightarrow> Some (Again q3)
                       | (Some skb, q3) \<Rightarrow>
                           Some (Return (Some skb) (cake_charge idx skb q3))))) = Some r"
      by (simp add: cake_dequeue_pass_def)
    then obtain q1 where c: "cake_choose_tin n now q = Some q1"
      by (cases "cake_choose_tin n now q") auto
    from cake_choose_tin_rule[where P = P, OF c assms(2) skip]
    have p1: "P q1" and b1: "tin_backlog (tins q1 (unat (cur_tin q1))) \<noteq> 0" by simp_all
    from run c obtain sv where rt: "cake_retry n q1 = Some sv"
      by (cases "cake_retry n q1") auto
    have rr: "case sv of
           Goto_Begin q' \<Rightarrow> P q'
         | Serve q' idx from_new \<Rightarrow>
             P q' \<and> cur_flow q' = of_nat idx \<and> cur_tin q' = cur_tin q1 \<and>
             cake_list_head (tins q' (unat (cur_tin q'))) = Some (from_new, idx) \<and>
             0 < sint (deficit (flows (tins q' (unat (cur_tin q'))) idx))"
    proof (rule cake_retry_rule[where P = P, OF rt p1 b1])
      fix q idx from_new
      assume "P q" "cake_list_head (tins q (unat (cur_tin q))) = Some (from_new, idx)"
      then show "P (q\<lparr>cur_flow := of_nat idx\<rparr>)" by (rule cur)
    next
      fix q idx from_new
      assume "P q" "cake_list_head (tins q (unat (cur_tin q))) = Some (from_new, idx)"
      then show "P (upd_tin (unat (cur_tin q)) (cake_flow_requeue idx from_new)
                     (q\<lparr>cur_flow := of_nat idx\<rparr>))" by (rule req)
    next
      fix q
      assume "P q" "tin_backlog (tins q (unat (cur_tin q))) \<noteq> 0"
        "cake_list_head (tins q (unat (cur_tin q))) = None"
      then show "P (upd_tin (unat (cur_tin q)) (\<lambda>b. b\<lparr>tin_backlog := 0\<rparr>) q)" by (rule zero)
    qed
    show ?thesis
    proof (cases sv)
      case (Goto_Begin q2)
      with run c rt have r: "r = Again q2" by simp
      from rr[unfolded Goto_Begin service.case] have "P q2" .
      with r show ?thesis by (simp only: pass.case)
    next
      case (Serve q2 idx from_new)
      from rr[unfolded Serve service.case] have p2: "P q2" and cf: "cur_flow q2 = of_nat idx"
        and lh: "cake_list_head (tins q2 (unat (cur_tin q2))) = Some (from_new, idx)"
        by blast+
      note p3 = serve[OF p2 cf lh]
      obtain r3 q3 where s: "cake_serve cm now idx from_new q2 = (r3, q3)"
        by (cases "cake_serve cm now idx from_new q2") auto
      show ?thesis
      proof (cases r3)
        case None
        with run c rt Serve s have r: "r = Again q3" by simp
        from p3 s have "P q3" by simp
        with r show ?thesis by (simp only: pass.case)
      next
        case (Some skb)
        with run c rt Serve s have r: "r = Return (Some skb) (cake_charge idx skb q3)" by simp
        from p3 s have "P q3" by simp
        then have "\<exists>q3' idx'. P q3' \<and> cake_charge idx skb q3 = cake_charge idx' skb q3'"
          by (intro exI[of _ q3] exI[of _ idx] conjI refl)
        with r show ?thesis by (simp only: pass.case option.case)
      qed
    qed
  qed
qed

lemma cake_dequeue_rule:
  assumes "cake_dequeue cm n now q = Some (r, q')" and "P q"
    and pass: "\<And>n q r. P q \<Longrightarrow> cake_dequeue_pass cm n now q = Some r \<Longrightarrow>
                 (case r of Again q' \<Rightarrow> P q' | Return r q' \<Rightarrow> R r q')"
  shows "R r q'"
  using assms(1,2)
proof (induction n arbitrary: q)
  case 0
  show ?case
  proof (cases "cake_dequeue_pass cm 0 now q")
    case None
    with "0.prems"(1) show ?thesis by (simp add: cake_dequeue.simps[of cm 0])
  next
    case (Some ps)
    with "0.prems"(1) pass[OF "0.prems"(2) Some] show ?thesis
      by (cases ps) (simp_all add: cake_dequeue.simps[of cm 0])
  qed
next
  case (Suc n)
  show ?case
  proof (cases "cake_dequeue_pass cm (Suc n) now q")
    case None
    with Suc.prems(1) show ?thesis by (simp add: cake_dequeue.simps[of cm "Suc n"])
  next
    case (Some ps)
    show ?thesis
    proof (cases ps)
      case (Return r1 q1)
      with Some Suc.prems(1) pass[OF Suc.prems(2) Some] show ?thesis
        by (simp add: cake_dequeue.simps[of cm "Suc n"])
    next
      case (Again q1)
      with Some Suc.prems(1) have "cake_dequeue cm n now q1 = Some (r, q')"
        by (simp add: cake_dequeue.simps[of cm "Suc n"])
      moreover from Again pass[OF Suc.prems(2) Some] have "P q1" by simp
      ultimately show ?thesis by (rule Suc.IH)
    qed
  qed
qed

section \<open>What the operations leave alone\<close>

text \<open>
  The configuration of the scheduler and of a tin, and the shaper clocks.  The steps of
  enqueue, dequeue and drop keep the configuration; all steps of dequeue before the final
  charge keep the clocks too.
\<close>

definition cake_static where
  "cake_static q =
     (cparams q, tin_cnt q, tin_mode q, flow_mode q, rate_shft q, rate_ns q, rate_bps q,
      rate_flags q, rate_overhead q, interval q, target q, buffer_limit q,
      buffer_config_limit q, tin_index q, sch_limit q, sch_can_bypass q, sch_mtu q,
      tins_alloc q)"

definition tin_static where
  "tin_static b =
     (flows_cnt b, perturbation b, quantum b, tin_rate_ns b, tin_rate_bps b, tin_rate_shft b,
      tin_quantum_prio b, tin_quantum_band b)"

definition same_static :: "cake_sched_data \<Rightarrow> cake_sched_data \<Rightarrow> bool" where
  "same_static q q' \<longleftrightarrow>
     cake_static q' = cake_static q \<and> (\<forall>t. tin_static (tins q' t) = tin_static (tins q t))"

definition same_clocks :: "cake_sched_data \<Rightarrow> cake_sched_data \<Rightarrow> bool" where
  "same_clocks q q' \<longleftrightarrow>
     time_next_packet q' = time_next_packet q \<and>
     (\<forall>t. tin_time_next_packet (tins q' t) = tin_time_next_packet (tins q t))"

definition same_shape :: "cake_sched_data \<Rightarrow> cake_sched_data \<Rightarrow> bool" where
  "same_shape q q' \<longleftrightarrow> same_static q q' \<and> same_clocks q q'"

lemma same_static_refl [simp]: "same_static q q"
  by (simp add: same_static_def)

lemma same_static_trans: "same_static q q1 \<Longrightarrow> same_static q1 q2 \<Longrightarrow> same_static q q2"
  by (simp add: same_static_def)

lemma same_shape_refl [simp]: "same_shape q q"
  by (simp add: same_shape_def same_clocks_def)

lemma same_shape_trans: "same_shape q q1 \<Longrightarrow> same_shape q1 q2 \<Longrightarrow> same_shape q q2"
  by (simp add: same_shape_def same_clocks_def same_static_def)

lemma same_shape_tin_skip: "same_shape q (cake_tin_skip now q)"
  by (simp add: same_shape_def same_static_def same_clocks_def cake_static_def tin_static_def
                cake_tin_skip_def cake_tin_credit_def upd_tin_def Let_def)

lemma same_shape_cur_flow: "same_shape q (q\<lparr>cur_flow := i\<rparr>)"
  by (simp add: same_shape_def same_static_def same_clocks_def cake_static_def)

lemma same_shape_requeue:
  "same_shape q (upd_tin t (cake_flow_requeue idx from_new) (q\<lparr>cur_flow := i\<rparr>))"
  by (simp add: same_shape_def same_static_def same_clocks_def cake_static_def tin_static_def
                cake_flow_requeue_def list_move_tail_old_def upd_flow_def upd_tin_def Let_def)

lemma same_shape_zero: "same_shape q (upd_tin t (\<lambda>b. b\<lparr>tin_backlog := 0\<rparr>) q)"
  by (simp add: same_shape_def same_static_def same_clocks_def cake_static_def tin_static_def
                upd_tin_def)

lemma same_shape_throttle:
  "same_shape q (q\<lparr>sch_overlimits := x, watchdog := y\<rparr>)"
  by (simp add: same_shape_def same_static_def same_clocks_def cake_static_def)

lemma same_shape_custom_dequeue:
  "custom_dequeue q = (r, q1) \<Longrightarrow> same_shape q q1"
  by (auto simp: same_shape_def same_static_def same_clocks_def cake_static_def tin_static_def
                 custom_dequeue_def dequeue_head_def Let_def split: list.splits)

lemma same_shape_set_cvars: "same_shape q (set_cvars t idx v q)"
  by (simp add: same_shape_def same_static_def same_clocks_def cake_static_def tin_static_def
                set_cvars_def upd_tin_def upd_flow_def)

lemma same_shape_sch_counters:
  "same_shape q (q\<lparr>sch_backlog := x\<rparr>)" "same_shape q (q\<lparr>sch_drops := y\<rparr>)"
  by (simp_all add: same_shape_def same_static_def same_clocks_def cake_static_def)

lemma same_shape_codel_dequeue:
  "same_shape q (snd (codel_dequeue cm now over t idx q))"
proof (rule codel_dequeue_rule[where P = "same_shape q"])
  show "same_shape q q" by simp
next
  fix q0 skb q1
  assume a: "same_shape q q0" "custom_dequeue q0 = (Some skb, q1)"
  from same_shape_custom_dequeue[OF a(2)] same_shape_sch_counters(1)[of q1]
  have "same_shape q0 (q1\<lparr>sch_backlog := sch_backlog q1 - pkt_len skb\<rparr>)"
    by (rule same_shape_trans)
  with a(1) show "same_shape q (q1\<lparr>sch_backlog := sch_backlog q1 - pkt_len skb\<rparr>)"
    by (rule same_shape_trans)
next
  fix q0 v
  assume "same_shape q q0"
  then show "same_shape q (set_cvars t idx v q0)"
    using same_shape_set_cvars by (rule same_shape_trans)
next
  fix q0
  assume "same_shape q q0"
  then show "same_shape q (q0\<lparr>sch_drops := sch_drops q0 + 1\<rparr>)"
    using same_shape_sch_counters(2) by (rule same_shape_trans)
qed

lemma same_shape_stats:
  "same_shape q (upd_tin t (cake_codel_stats idx d m) q)"
  by (simp add: same_shape_def same_static_def same_clocks_def cake_static_def tin_static_def
                cake_codel_stats_def upd_tin_def upd_flow_def Let_def)

lemma same_shape_emptied:
  "same_shape q (upd_tin t (cake_flow_emptied idx from_new) q)"
  by (simp add: same_shape_def same_static_def same_clocks_def cake_static_def tin_static_def
                cake_flow_emptied_def list_move_tail_old_def list_del_init_def upd_tin_def Let_def)

lemma same_shape_upd_flow_cvars:
  "same_shape q (upd_tin t (upd_flow idx (\<lambda>f. f\<lparr>cvars := g f\<rparr>)) q)"
  by (simp add: same_shape_def same_static_def same_clocks_def cake_static_def tin_static_def
                upd_tin_def upd_flow_def)

lemma same_shape_serve: "same_shape q (snd (cake_serve cm now idx from_new q))"
proof -
  let ?t = "unat (cur_tin q)"
  let ?v = "cvars (flows (tins q ?t) idx)"
  let ?over = "buffer_used q > drop_bit 2 (buffer_limit q) + drop_bit 1 (buffer_limit q)"
  obtain r q1 where c: "codel_dequeue cm now ?over ?t idx q = (r, q1)"
    by (cases "codel_dequeue cm now ?over ?t idx q") auto
  let ?q2 = "upd_tin ?t (cake_codel_stats idx (drop_count ?v) (ecn_mark ?v)) q1"
  from same_shape_codel_dequeue[of q cm now ?over ?t idx] c have 1: "same_shape q q1" by simp
  have 2: "same_shape q ?q2" using 1 same_shape_stats by (rule same_shape_trans)
  show ?thesis
  proof (cases r)
    case None
    with c have "snd (cake_serve cm now idx from_new q) =
                   upd_tin ?t (cake_flow_emptied idx from_new) ?q2"
      by (simp add: cake_serve_def Let_def)
    with same_shape_trans[OF 2 same_shape_emptied] show ?thesis by simp
  next
    case (Some skb)
    with c have "snd (cake_serve cm now idx from_new q) = ?q2 \<or>
                 snd (cake_serve cm now idx from_new q) =
                   upd_tin ?t (upd_flow idx (\<lambda>f. f\<lparr>cvars := (cvars f)\<lparr>drop_count := 0\<rparr>\<rparr>)) ?q2"
      by (simp add: cake_serve_def Let_def)
    with 2 same_shape_trans[OF 2 same_shape_upd_flow_cvars] show ?thesis by auto
  qed
qed

lemma cake_dequeue_pass_shape:
  assumes "cake_dequeue_pass cm n now q = Some r" and "same_shape q0 q"
  shows "case r of
           Again q' \<Rightarrow> same_shape q0 q'
         | Return None q' \<Rightarrow> same_shape q0 q'
         | Return (Some skb) q' \<Rightarrow> \<exists>q3 idx. same_shape q0 q3 \<and> q' = cake_charge idx skb q3"
proof (rule cake_dequeue_pass_rule[where P = "same_shape q0", OF assms])
  fix q
  assume "same_shape q0 q"
  then show "same_shape q0 (cake_tin_skip now q)"
    using same_shape_tin_skip by (rule same_shape_trans)
next
  fix q idx from_new
  assume "same_shape q0 q"
  then show "same_shape q0 (q\<lparr>cur_flow := of_nat idx\<rparr>)"
    using same_shape_cur_flow by (rule same_shape_trans)
next
  fix q idx from_new
  assume "same_shape q0 q"
  then show "same_shape q0 (upd_tin (unat (cur_tin q)) (cake_flow_requeue idx from_new)
                     (q\<lparr>cur_flow := of_nat idx\<rparr>))"
    using same_shape_requeue by (rule same_shape_trans)
next
  fix q
  assume "same_shape q0 q"
  then show "same_shape q0 (upd_tin (unat (cur_tin q)) (\<lambda>b. b\<lparr>tin_backlog := 0\<rparr>) q)"
    using same_shape_zero by (rule same_shape_trans)
next
  fix q idx from_new
  assume "same_shape q0 q"
  then show "same_shape q0 (snd (cake_serve cm now idx from_new q))"
    using same_shape_serve by (rule same_shape_trans)
next
  fix q
  assume "same_shape q0 q"
  then show "same_shape q0 (q\<lparr>sch_overlimits := sch_overlimits q + 1,
                      watchdog := Some (time_next_packet q)\<rparr>)"
    using same_shape_throttle by (rule same_shape_trans)
qed

lemma cake_dequeue_shape:
  assumes "cake_dequeue cm n now q = Some (r, q')"
  shows "case r of
           None \<Rightarrow> same_shape q q'
         | Some skb \<Rightarrow> \<exists>q3 idx. same_shape q q3 \<and> q' = cake_charge idx skb q3"
proof (rule cake_dequeue_rule[where P = "same_shape q" and
        R = "\<lambda>r q'. case r of None \<Rightarrow> same_shape q q'
                     | Some skb \<Rightarrow> \<exists>q3 idx. same_shape q q3 \<and> q' = cake_charge idx skb q3",
        OF assms])
  show "same_shape q q" by simp
next
  fix n q1 r1
  assume a: "same_shape q q1" "cake_dequeue_pass cm n now q1 = Some r1"
  from cake_dequeue_pass_shape[OF a(2) a(1)]
  show "case r1 of Again q' \<Rightarrow> same_shape q q'
        | Return r q' \<Rightarrow> (case r of None \<Rightarrow> same_shape q q'
                     | Some skb \<Rightarrow> \<exists>q3 idx. same_shape q q3 \<and> q' = cake_charge idx skb q3)"
    by (cases r1) (auto split: option.splits)
qed

section \<open>The shaper clocks on emission (C5)\<close>

lemma cake_overhead_same: "same_shape q q3 \<Longrightarrow> cake_overhead q3 n = cake_overhead q n"
  by (simp add: same_shape_def same_static_def cake_static_def cake_overhead_def)

lemma cake_charge_cur_tin [simp]: "cur_tin (cake_charge idx skb q) = cur_tin q"
  by (simp add: cake_charge_def Let_def upd_tin_def)

lemma cake_charge_tin_clock:
  "tin_time_next_packet (tins (cake_charge idx skb q) i) =
     (if i \<le> unat (cur_tin q)
      then tin_time_next_packet (tins q i) +
             drop_bit (unat (tin_rate_shft (tins q i)))
               (ucast (cake_overhead q (pkt_len skb)) * ucast (tin_rate_ns (tins q i)))
      else tin_time_next_packet (tins q i))"
  by (simp add: cake_charge_tin Let_def cake_tin_advance_def upd_flow_def)

text \<open>
  C5.  When \<open>cake_dequeue\<close> emits a packet of effective length \<open>L\<close> from tin \<open>t\<close> (the
  cursor \<open>cur_tin\<close> on return), the global \<open>time_next_packet\<close> has grown by
  \<open>(L * rate_ns) >> rate_shft\<close>, the \<open>tin_time_next_packet\<close> of tin \<open>t\<close> and of every
  tin of lower index has grown by \<open>(L * tin_rate_ns) >> tin_rate_shft\<close> with that tin's
  own rate, and the clock of every tin of higher index is as it was.  This holds for
  every behaviour of CoDel and every amount of fuel that lets the call return.
\<close>

theorem cake_dequeue_charges_shapers:
  assumes "cake_dequeue cm n now q = Some (Some skb, q')"
  shows "time_next_packet q' =
           time_next_packet q +
             drop_bit (unat (rate_shft q)) (ucast (cake_overhead q (pkt_len skb)) * ucast (rate_ns q)) \<and>
         (\<forall>i. tin_time_next_packet (tins q' i) =
            (if i \<le> unat (cur_tin q')
             then tin_time_next_packet (tins q i) +
                    drop_bit (unat (tin_rate_shft (tins q i)))
                      (ucast (cake_overhead q (pkt_len skb)) * ucast (tin_rate_ns (tins q i)))
             else tin_time_next_packet (tins q i)))"
proof -
  from cake_dequeue_shape[OF assms] obtain q3 idx where
    s: "same_shape q q3" and q': "q' = cake_charge idx skb q3" by auto
  have o: "cake_overhead q3 (pkt_len skb) = cake_overhead q (pkt_len skb)"
    using s by (rule cake_overhead_same)
  from s have g: "time_next_packet q3 = time_next_packet q" "rate_shft q3 = rate_shft q"
    "rate_ns q3 = rate_ns q"
    by (simp_all add: same_shape_def same_static_def same_clocks_def cake_static_def)
  from s have t: "\<And>i. tin_time_next_packet (tins q3 i) = tin_time_next_packet (tins q i)"
    "\<And>i. tin_rate_shft (tins q3 i) = tin_rate_shft (tins q i)"
    "\<And>i. tin_rate_ns (tins q3 i) = tin_rate_ns (tins q i)"
    by (simp_all add: same_shape_def same_static_def same_clocks_def tin_static_def)
  show ?thesis
    unfolding q' by (simp add: cake_charge_global cake_charge_tin_clock o g t)
qed

theorem cake_dequeue_charges_shapers_witness:
  "cake_dequeue pass_all 2 2000 ex_loaded =
     Some (Some ((sample_skb 1000)\<lparr>enqueue_time := 1000\<rparr>),
           snd (the (cake_dequeue pass_all 2 2000 ex_loaded))) \<and>
   time_next_packet ex_loaded = 1000 \<and>
   time_next_packet (snd (the (cake_dequeue pass_all 2 2000 ex_loaded))) = 801000"
proof -
  let ?r = "cake_dequeue pass_all 2 2000 ex_loaded"
  have f: "fst (the ?r) = Some ((sample_skb 1000)\<lparr>enqueue_time := 1000\<rparr>)"
    by (simp add: ex_defs enq_defs deq_defs)
  have "?r \<noteq> None"
    by (simp add: ex_defs enq_defs deq_defs)
  then have "?r = Some (fst (the ?r), snd (the ?r))" by auto
  with f have run: "?r = Some (Some ((sample_skb 1000)\<lparr>enqueue_time := 1000\<rparr>), snd (the ?r))"
    by simp
  have t0: "time_next_packet ex_loaded = 1000"
    by (simp add: ex_defs enq_defs)
  have c: "drop_bit (unat (rate_shft ex_loaded))
             (ucast (cake_overhead ex_loaded (pkt_len ((sample_skb 1000)\<lparr>enqueue_time := 1000\<rparr>))) *
              ucast (rate_ns ex_loaded)) = (800000 :: u64)"
    by (simp add: ex_defs enq_defs cake_overhead_def CAKE_FLAG_ATM_def)
  from cake_dequeue_charges_shapers[OF run]
  have "time_next_packet (snd (the ?r)) = 801000"
    by (simp only: t0 c) simp
  with run t0 show ?thesis by (intro conjI)
qed

section \<open>More of what the operations leave alone\<close>

lemma cake_clear_flows_rule:
  assumes "cake_clear_flows tin q = Inr q'" and "P q"
    and pop: "\<And>q skb q1. P q \<Longrightarrow> custom_dequeue q = (Some skb, q1) \<Longrightarrow> P q1"
    and cur: "\<And>q x. P q \<Longrightarrow> P (q\<lparr>cur_flow := x\<rparr>)"
  shows "P q'"
  using assms(1,2)
proof (induction "65536 - unat (cur_flow q)" arbitrary: q rule: less_induct)
  case less
  show ?case
  proof (cases "ucast (cur_flow q) < flows_cnt (tins q tin)")
    case False
    with less.prems show ?thesis by (simp add: cake_clear_flows.simps[of tin q])
  next
    case True
    let ?q1 = "cake_clear_flow q"
    have c: "cur_flow ?q1 = cur_flow q" using cake_clear_flow_cursor[of q] by simp
    have p1: "P ?q1" using less.prems(2) pop by (rule cake_clear_flow_rule)
    from True less.prems(1) have ne: "cur_flow q \<noteq> 0xFFFF"
      by (auto simp: cake_clear_flows.simps[of tin q] Let_def c)
    with True less.prems(1) have run: "cake_clear_flows tin (?q1\<lparr>cur_flow := cur_flow ?q1 + 1\<rparr>) = Inr q'"
      by (simp add: cake_clear_flows.simps[of tin q] Let_def c)
    have "unat (cur_flow q) < 65536"
      using unsigned_less[of "cur_flow q", where ?'a = nat] by simp
    moreover have "unat (cur_flow q) \<noteq> 65535"
      using ne by (simp add: word_unat_eq_iff)
    ultimately have lt: "unat (cur_flow q) < 65535" by simp
    then have "unat (cur_flow q + 1) = unat (cur_flow q) + 1"
      by (simp add: unat_word_ariths)
    with lt have m: "65536 - unat (cur_flow (?q1\<lparr>cur_flow := cur_flow ?q1 + 1\<rparr>)) < 65536 - unat (cur_flow q)"
      by (simp add: c)
    from less.hyps[OF m run cur[OF p1]] show ?thesis .
  qed
qed

lemma cake_clear_tins_rule:
  assumes "cake_clear_tins cs q = Inr q'" and "P q"
    and pop: "\<And>q skb q1. P q \<Longrightarrow> custom_dequeue q = (Some skb, q1) \<Longrightarrow> P q1"
    and cur: "\<And>q x. P q \<Longrightarrow> P (q\<lparr>cur_flow := x\<rparr>)"
    and tin: "\<And>q x. P q \<Longrightarrow> P (q\<lparr>cur_tin := x\<rparr>)"
  shows "P q'"
  using assms(1,2)
proof (induction cs arbitrary: q)
  case Nil
  then show ?case by simp
next
  case (Cons c cs)
  from Cons.prems(1) obtain q1 where 1: "cake_clear_tin (of_nat c) q = Inr q1"
    and 2: "cake_clear_tins cs q1 = Inr q'"
    by (cases "cake_clear_tin (of_nat c) q") auto
  have "P (q\<lparr>cur_tin := of_nat c, cur_flow := 0\<rparr>)"
    using Cons.prems(2) by (intro cur tin)
  with 1 have "P q1"
    unfolding cake_clear_tin_def by (rule cake_clear_flows_rule) (erule pop cur, assumption?)+
  with 2 show ?case by (rule Cons.IH)
qed

lemma same_shape_cur_tin: "same_shape q (q\<lparr>cur_tin := i\<rparr>)"
  by (simp add: same_shape_def same_static_def same_clocks_def cake_static_def)

lemma cake_clear_tins_shape:
  assumes "cake_clear_tins cs q = Inr q'"
  shows "same_shape q q'"
proof (rule cake_clear_tins_rule[where P = "same_shape q", OF assms])
  show "same_shape q q" by simp
next
  fix q0 skb q1
  assume "same_shape q q0" "custom_dequeue q0 = (Some skb, q1)"
  then show "same_shape q q1" using same_shape_custom_dequeue same_shape_trans by blast
next
  fix q0 x
  assume "same_shape q q0"
  then show "same_shape q (q0\<lparr>cur_flow := x\<rparr>)" using same_shape_cur_flow by (rule same_shape_trans)
next
  fix q0 x
  assume "same_shape q q0"
  then show "same_shape q (q0\<lparr>cur_tin := x\<rparr>)" using same_shape_cur_tin by (rule same_shape_trans)
qed

lemma cake_drop_shape:
  assumes "cake_drop q = Inr (r, q')"
  shows "same_shape q q'"
proof -
  obtain m idx tin where f: "cake_drop_find q = (m, idx, tin)"
    by (cases "cake_drop_find q") auto
  with assms show ?thesis
    by (auto simp: cake_drop_def dequeue_head_def Let_def same_shape_def same_static_def
                   same_clocks_def cake_static_def tin_static_def split: list.splits)
qed

lemma cake_overflow_loop_shape:
  assumes "cake_overflow_loop q n = Inr (q', n')"
  shows "same_shape q q'"
proof -
  have "same_shape q q' \<and> buffer_used q' \<le> buffer_limit q'"
  proof (rule cake_overflow_loop_rule[where P = "same_shape q", OF assms])
    show "same_shape q q" by simp
  next
    fix q0 r q1
    assume "same_shape q q0" "cake_drop q0 = Inr (r, q1)"
    then show "same_shape q q1" using cake_drop_shape same_shape_trans by blast
  qed
  then show ?thesis by simp
qed

lemma same_static_unstale: "same_static q (cake_unstale now tin q)"
  by (simp add: cake_unstale_def Let_def same_static_def cake_static_def tin_static_def upd_tin_def)

lemma same_static_gso_fold:
  "same_static (fst qs) (fst (fold (cake_gso_add now tin idx) segs qs))"
proof (induction segs arbitrary: qs)
  case Nil
  show ?case by simp
next
  case (Cons seg segs)
  obtain q slen where qs: "qs = (q, slen)" by (cases qs) auto
  have "same_static q (fst (cake_gso_add now tin idx seg (q, slen)))"
    by (simp add: cake_gso_add_def Let_def same_static_def cake_static_def tin_static_def
                  upd_tin_def upd_flow_def flow_queue_add_def)
  with Cons.IH[of "cake_gso_add now tin idx seg (q, slen)"] qs show ?case
    by (auto intro: same_static_trans)
qed

lemma same_static_enqueue_gso: "same_static q (cake_enqueue_gso now tin idx segs q)"
proof -
  obtain q1 slen where f: "fold (cake_gso_add now tin idx) segs (q, 0) = (q1, slen)"
    by (cases "fold (cake_gso_add now tin idx) segs (q, 0)") auto
  with same_static_gso_fold[of "(q, 0)" now tin idx segs] have "same_static q q1" by simp
  moreover have "same_static q1 (cake_enqueue_gso now tin idx segs q)"
    using f by (simp add: cake_enqueue_gso_def Let_def same_static_def cake_static_def
                          tin_static_def upd_tin_def)
  ultimately show ?thesis by (rule same_static_trans)
qed

lemma same_static_enqueue_plain: "same_static q (cake_enqueue_plain now tin idx skb q)"
  by (simp add: cake_enqueue_plain_def Let_def same_static_def cake_static_def tin_static_def
                upd_tin_def upd_flow_def flow_queue_add_def)

lemma same_static_flowchain: "same_static q (cake_enqueue_flowchain tin idx q)"
  by (simp add: cake_enqueue_flowchain_def same_static_def cake_static_def tin_static_def
                upd_tin_def upd_flow_def)

lemma same_static_overflow:
  assumes "cake_enqueue_overflow tin q = Inr q'"
  shows "same_static q q'"
proof (cases "buffer_used q > buffer_limit q")
  case False
  with assms show ?thesis by (simp add: cake_enqueue_overflow_def)
next
  case True
  with assms obtain q1 n where l: "cake_overflow_loop q 0 = Inr (q1, n)"
    and q': "q' = upd_tin tin (\<lambda>b. b\<lparr>drop_overlimit := drop_overlimit b + n\<rparr>) q1"
    by (auto simp: cake_enqueue_overflow_def split: sum.splits)
  from cake_overflow_loop_shape[OF l] have "same_static q q1" by (simp add: same_shape_def)
  moreover have "same_static q1 q'"
    by (simp add: q' same_static_def cake_static_def tin_static_def upd_tin_def)
  ultimately show ?thesis by (rule same_static_trans)
qed

text \<open>The steps of \<open>cake_enqueue\<close> up to the overflow check, as one function of the state.\<close>

lemma cake_enqueue_Inr:
  assumes "cake_enqueue now gso skb q = Inr (r, q')"
  shows "same_static q q'"
proof -
  obtain tin skb1 where c: "cake_classify q skb = (tin, skb1)"
    by (cases "cake_classify q skb") auto
  let ?idx = "unat (cake_hash (tins q tin) skb1 (flow_mode q))"
  let ?q1 = "cake_unstale now tin q"
  have 1: "same_static q ?q1" by (rule same_static_unstale)
  show ?thesis
  proof (cases "gso = GSO_Failed \<or> gso = GSO_Segs []")
    case True
    with assms c have "q' = ?q1" by (auto simp: cake_enqueue_def Let_def)
    with 1 show ?thesis by simp
  next
    case False
    let ?q2 = "case gso of GSO_Segs segs \<Rightarrow> cake_enqueue_gso now tin ?idx segs ?q1
                         | _ \<Rightarrow> cake_enqueue_plain now tin ?idx skb1 ?q1"
    have 2: "same_static ?q1 ?q2"
      by (cases gso) (simp_all add: same_static_enqueue_gso same_static_enqueue_plain)
    let ?q3 = "cake_enqueue_flowchain tin ?idx ?q2"
    have 3: "same_static ?q2 ?q3" by (rule same_static_flowchain)
    from False assms c have "cake_enqueue_overflow tin ?q3 = Inr q'"
      by (cases gso; cases "cake_enqueue_overflow tin ?q3")
         (auto simp: cake_enqueue_def Let_def split: list.splits)
    from same_static_overflow[OF this] 1 2 3 show ?thesis
      by (blast intro: same_static_trans)
  qed
qed

lemma cake_charge_static: "same_static q (cake_charge idx skb q)"
  by (simp add: same_static_def cake_static_def tin_static_def cake_charge_def Let_def
                cake_charge_tins_apply cake_tin_advance_def upd_flow_def upd_tin_def)

lemma cake_dequeue_static:
  assumes "cake_dequeue cm n now q = Some (r, q')"
  shows "same_static q q'"
proof (cases r)
  case None
  with cake_dequeue_shape[OF assms] show ?thesis by (simp add: same_shape_def)
next
  case (Some skb)
  with cake_dequeue_shape[OF assms] obtain q3 idx where
    "same_shape q q3" "q' = cake_charge idx skb q3" by auto
  then show ?thesis
    using cake_charge_static[of q3 idx skb] by (auto simp: same_shape_def intro: same_static_trans)
qed

lemma cake_clear_flow_shape: "same_shape q (cake_clear_flow q)"
proof (rule cake_clear_flow_rule[where P = "same_shape q"])
  show "same_shape q q" by simp
next
  fix q0 skb q1
  assume "same_shape q q0" "custom_dequeue q0 = (Some skb, q1)"
  then show "same_shape q q1" using same_shape_custom_dequeue same_shape_trans by blast
qed

lemma same_shape_flows_cnt: "same_shape q q' \<Longrightarrow> flows_cnt (tins q' t) = flows_cnt (tins q t)"
  by (simp add: same_shape_def same_static_def tin_static_def)

lemma cake_clear_flows_total:
  assumes "unat (flows_cnt (tins q tin)) \<le> 65535"
  shows "\<exists>q'. cake_clear_flows tin q = Inr q'"
  using assms
proof (induction "65536 - unat (cur_flow q)" arbitrary: q rule: less_induct)
  case less
  show ?case
  proof (cases "ucast (cur_flow q) < flows_cnt (tins q tin)")
    case False
    then show ?thesis by (simp add: cake_clear_flows.simps[of tin q])
  next
    case True
    let ?q1 = "cake_clear_flow q"
    have c: "cur_flow ?q1 = cur_flow q" using cake_clear_flow_cursor[of q] by simp
    have u: "unat (ucast (cur_flow q) :: u32) = unat (cur_flow q)"
    proof (rule unat_ucast_small)
      have "unat (cur_flow q) < 2 ^ 16" using unsigned_less[of "cur_flow q", where ?'a = nat] by simp
      also have "(2::nat) ^ 16 < 2 ^ LENGTH(32)" by simp
      finally show "unat (cur_flow q) < 2 ^ LENGTH(32)" .
    qed
    from True have "unat (ucast (cur_flow q) :: u32) < unat (flows_cnt (tins q tin))"
      by (simp add: word_less_nat_alt)
    with u less.prems have lt: "unat (cur_flow q) < 65535" by simp
    then have ne: "cur_flow q \<noteq> 0xFFFF" by auto
    from lt have s: "unat (cur_flow q + 1) = unat (cur_flow q) + 1"
      by (simp add: unat_word_ariths)
    let ?q2 = "?q1\<lparr>cur_flow := cur_flow ?q1 + 1\<rparr>"
    have m: "65536 - unat (cur_flow ?q2) < 65536 - unat (cur_flow q)"
      using lt s by (simp add: c)
    have "flows_cnt (tins ?q2 tin) = flows_cnt (tins q tin)"
      using same_shape_flows_cnt[OF cake_clear_flow_shape[of q], of tin] by simp
    with less.prems have "unat (flows_cnt (tins ?q2 tin)) \<le> 65535" by simp
    from less.hyps[OF m this] True ne show ?thesis
      by (simp add: cake_clear_flows.simps[of tin q] Let_def c)
  qed
qed

lemma cake_clear_tins_total:
  assumes "\<And>t. unat (flows_cnt (tins q t)) \<le> 65535"
  shows "\<exists>q'. cake_clear_tins cs q = Inr q'"
  using assms
proof (induction cs arbitrary: q)
  case Nil
  show ?case by simp
next
  case (Cons c cs)
  have "unat (flows_cnt (tins (q\<lparr>cur_tin := of_nat c, cur_flow := 0\<rparr>) (unat (of_nat c :: u16)))) \<le> 65535"
    using Cons.prems by simp
  from cake_clear_flows_total[OF this] obtain q1 where
    1: "cake_clear_tin (of_nat c) q = Inr q1" by (auto simp: cake_clear_tin_def)
  have "cake_clear_tins [c] q = Inr q1" using 1 by simp
  from cake_clear_tins_shape[OF this] Cons.prems
  have "\<And>t. unat (flows_cnt (tins q1 t)) \<le> 65535"
    by (simp add: same_shape_flows_cnt)
  from Cons.IH[OF this] 1 show ?case by simp
qed

section \<open>The CoDel interval and target under reconfiguration (C9)\<close>

lemma cake_config_interval_target:
  "interval (cake_config_besteffort q) = interval q \<and> target (cake_config_besteffort q) = target q"
  "interval (cake_config_precedence q) = interval q \<and> target (cake_config_precedence q) = target q"
  "interval (cake_config_diffserv8 q) = interval q \<and> target (cake_config_diffserv8 q) = target q"
  "interval (cake_config_diffserv4 q) = interval q \<and> target (cake_config_diffserv4 q) = target q"
  by (simp_all add: cake_config_besteffort_def cake_config_precedence_def cake_config_diffserv8_def
                    cake_config_diffserv4_def cake_config_tins_def upd_tin_def Let_def)

lemma cake_mode_config_interval_target:
  "interval (cake_mode_config q) = interval q \<and> target (cake_mode_config q) = target q"
  by (simp add: cake_mode_config_def cake_config_interval_target)

lemma cake_reconfigure_clear:
  "cake_reconfigure q = Inr q' \<Longrightarrow>
     \<exists>q2. cake_clear_tins [unat (tin_cnt (cake_mode_config q))..<CAKE_MAX_TINS] (cake_mode_config q) = Inr q2 \<and>
          tins q' = tins q2 \<and> interval q' = interval q2 \<and> target q' = target q2"
  by (cases "cake_clear_tins [unat (tin_cnt (cake_mode_config q))..<CAKE_MAX_TINS] (cake_mode_config q)")
     (auto simp: cake_reconfigure_def Let_def)

lemma cake_reconfigure_interval_target:
  assumes "cake_reconfigure q = Inr q'"
  shows "interval q' = interval q \<and> target q' = target q"
proof -
  from cake_reconfigure_clear[OF assms] obtain q2 where
    c: "cake_clear_tins [unat (tin_cnt (cake_mode_config q))..<CAKE_MAX_TINS] (cake_mode_config q) = Inr q2"
    and e: "interval q' = interval q2" "target q' = target q2" by blast
  from cake_clear_tins_shape[OF c]
  have "interval q2 = interval (cake_mode_config q) \<and> target q2 = target (cake_mode_config q)"
    by (simp add: same_shape_def same_static_def cake_static_def)
  with e cake_mode_config_interval_target[of q] show ?thesis by simp
qed

lemma set_flag_interval_target [simp]:
  "interval (set_flag f a q) = interval q" "target (set_flag f a q) = target q"
  by (simp_all add: set_flag_def split: option.splits)

lemma cake_change_attrs_interval:
  "interval (cake_change_attrs tb q) =
     (case TCA_CAKE_RTT tb of None \<Rightarrow> interval q | Some v \<Rightarrow> if v = 0 then 1 else v)"
  by (simp add: cake_change_attrs_def Let_def split: option.splits)

lemma cake_change_attrs_target:
  "target (cake_change_attrs tb q) =
     (case TCA_CAKE_TARGET tb of None \<Rightarrow> target q | Some v \<Rightarrow> if v = 0 then 1 else v)"
  by (simp add: cake_change_attrs_def Let_def split: option.splits)

lemma cake_change_interval_target_eq:
  assumes "cake_change opt q = Inr (err, q')"
  shows "interval q' = (case opt of Some (Nla_Attrs tb) \<Rightarrow>
                          (case TCA_CAKE_RTT tb of None \<Rightarrow> interval q
                           | Some v \<Rightarrow> if v = 0 then 1 else v)
                        | _ \<Rightarrow> interval q) \<and>
         target q' = (case opt of Some (Nla_Attrs tb) \<Rightarrow>
                          (case TCA_CAKE_TARGET tb of None \<Rightarrow> target q
                           | Some v \<Rightarrow> if v = 0 then 1 else v)
                        | _ \<Rightarrow> target q)"
proof (cases opt)
  case None
  with assms show ?thesis by (simp add: cake_change_def)
next
  case (Some a)
  show ?thesis
  proof (cases a)
    case (Nla_Malformed e)
    with Some assms show ?thesis by (simp add: cake_change_def)
  next
    case (Nla_Attrs tb)
    show ?thesis
    proof (cases "tins_alloc (cake_change_attrs tb q)")
      case False
      with Some Nla_Attrs assms have "q' = cake_change_attrs tb q"
        by (simp add: cake_change_def Let_def)
      with Some Nla_Attrs show ?thesis
        by (simp add: cake_change_attrs_interval cake_change_attrs_target)
    next
      case True
      with Some Nla_Attrs assms have "cake_reconfigure (cake_change_attrs tb q) = Inr q'"
        by (cases "cake_reconfigure (cake_change_attrs tb q)")
           (auto simp: cake_change_def Let_def)
      from cake_reconfigure_interval_target[OF this] Some Nla_Attrs show ?thesis
        by (simp add: cake_change_attrs_interval cake_change_attrs_target)
    qed
  qed
qed

lemma one_le_word_iff: "1 \<le> (x :: u32) \<longleftrightarrow> x \<noteq> 0"
  by (simp add: word_le_nat_alt unat_eq_0 Suc_le_eq unat_gt_0)

lemma cake_change_nonzero:
  assumes "cake_change opt q = Inr (err, q')" and "interval q \<noteq> 0" and "target q \<noteq> 0"
  shows "interval q' \<noteq> 0 \<and> target q' \<noteq> 0"
  using cake_change_interval_target_eq[OF assms(1)] assms(2,3)
  by (auto split: option.splits nlattr.splits)

lemma cake_init_nonzero:
  assumes "cake_init seeds alloc_ok opt q = Inr (0, q')"
  shows "interval q' \<noteq> 0 \<and> target q' \<noteq> 0"
proof -
  let ?q1 = "q\<lparr>sch_limit := 10240, tin_mode := CAKE_MODE_DIFFSERV4,
                flow_mode := CAKE_FLOW_FLOWS, rate_bps := 0, interval := 100000,
                target := 5000, cur_tin := 0, cur_flow := 0\<rparr>"
  let ?c = "if opt = None then Inr (0, ?q1) else cake_change opt ?q1"
  from assms obtain err q2 where c: "?c = Inr (err, q2)"
    by (cases ?c) (auto simp: cake_init_def Let_def)
  have n2: "interval q2 \<noteq> 0 \<and> target q2 \<noteq> 0"
  proof (cases "opt = None")
    case True
    with c show ?thesis by auto
  next
    case False
    with c have "cake_change opt ?q1 = Inr (err, q2)" by simp
    from cake_change_nonzero[OF this] show ?thesis by simp
  qed
  from assms c have e: "err = 0" and ok: alloc_ok
    by (auto simp: cake_init_def Let_def ENOMEM_def split: if_splits)
  let ?q3 = "q2\<lparr>watchdog := None, tins_alloc := True,
                 tins := (\<lambda>t. if t < CAKE_MAX_TINS then cake_init_tin (seeds t) zero_tin
                               else tins q2 t)\<rparr>"
  from assms c e ok have "cake_reconfigure ?q3 = Inr q'"
    by (cases "cake_reconfigure ?q3") (auto simp: cake_init_def Let_def)
  from cake_reconfigure_interval_target[OF this] n2 show ?thesis by simp
qed

text \<open>
  The states of an engine: set up by \<open>cake_init\<close> on a zeroed private area, then driven
  by any of the operations of the qdisc.
\<close>

inductive cake_engine :: "cake_sched_data \<Rightarrow> bool" where
  init: "cake_init seeds alloc_ok opt (zero_sched mtu) = Inr (0, q) \<Longrightarrow> cake_engine q"
| change: "cake_engine q \<Longrightarrow> cake_change opt q = Inr (err, q') \<Longrightarrow> cake_engine q'"
| enqueue: "cake_engine q \<Longrightarrow> cake_enqueue now gso skb q = Inr (r, q') \<Longrightarrow> cake_engine q'"
| dequeue: "cake_engine q \<Longrightarrow> cake_dequeue cm n now q = Some (r', q') \<Longrightarrow> cake_engine q'"
| drop: "cake_engine q \<Longrightarrow> cake_drop q = Inr (ret, q') \<Longrightarrow> cake_engine q'"
| reset: "cake_engine q \<Longrightarrow> cake_reset q = Inr q' \<Longrightarrow> cake_engine q'"

lemma same_static_interval_target:
  "same_static q q' \<Longrightarrow> interval q' = interval q \<and> target q' = target q"
  by (simp add: same_static_def cake_static_def)

lemma cake_engine_nonzero: "cake_engine q \<Longrightarrow> interval q \<noteq> 0 \<and> target q \<noteq> 0"
proof (induction rule: cake_engine.induct)
  case (init seeds alloc_ok opt mtu q)
  then show ?case by (rule cake_init_nonzero)
next
  case (change q opt err q')
  then show ?case using cake_change_nonzero by blast
next
  case (enqueue q now gso skb r q')
  from same_static_interval_target[OF cake_enqueue_Inr[OF enqueue.hyps(2)]] enqueue.IH
  show ?case by simp
next
  case (dequeue q cm n now r' q')
  from same_static_interval_target[OF cake_dequeue_static[OF dequeue.hyps(2)]] dequeue.IH
  show ?case by simp
next
  case (drop q ret q')
  from cake_drop_shape[OF drop.hyps(2)] have "same_static q q'" by (simp add: same_shape_def)
  from same_static_interval_target[OF this] drop.IH show ?case by simp
next
  case (reset q q')
  from cake_clear_tins_shape[OF reset.hyps(2)[unfolded cake_reset_def]]
  have "same_static q q'" by (simp add: same_shape_def)
  from same_static_interval_target[OF this] reset.IH show ?case by simp
qed

lemma cake_set_rate_flows_cnt [simp]: "flows_cnt (cake_set_rate b rate) = flows_cnt b"
  by (simp add: cake_set_rate_def split: prod.splits)

lemma cake_config_tin_flows_cnt:
  "flows_cnt (fst (fold cake_config_tin js st) t) = flows_cnt (fst st t)"
proof (induction js arbitrary: st)
  case Nil
  show ?case by simp
next
  case (Cons j js)
  obtain ts rate q1 q2 where st: "st = (ts, rate, q1, q2)" by (cases st) auto
  have "flows_cnt (fst (cake_config_tin j st) t) = flows_cnt (fst st t)"
    by (simp add: st cake_config_tin_def)
  with Cons.IH[of "cake_config_tin j st"] show ?case by simp
qed

lemma cake_config_flows_cnt:
  "flows_cnt (tins (cake_config_besteffort q) t) = flows_cnt (tins q t)"
  "flows_cnt (tins (cake_config_precedence q) t) = flows_cnt (tins q t)"
  "flows_cnt (tins (cake_config_diffserv8 q) t) = flows_cnt (tins q t)"
  "flows_cnt (tins (cake_config_diffserv4 q) t) = flows_cnt (tins q t)"
  by (simp_all add: cake_config_besteffort_def cake_config_precedence_def cake_config_diffserv8_def
                    cake_config_diffserv4_def cake_config_tins_def cake_config_tin_flows_cnt
                    upd_tin_def Let_def)

lemma cake_mode_config_flows_cnt [simp]:
  "flows_cnt (tins (cake_mode_config q) t) = flows_cnt (tins q t)"
  by (simp add: cake_mode_config_def cake_config_flows_cnt)

lemma cake_reconfigure_flows_cnt:
  assumes "cake_reconfigure q = Inr q'"
  shows "flows_cnt (tins q' t) = flows_cnt (tins q t)"
proof -
  from cake_reconfigure_clear[OF assms] obtain q2 where
    c: "cake_clear_tins [unat (tin_cnt (cake_mode_config q))..<CAKE_MAX_TINS] (cake_mode_config q) = Inr q2"
    and t: "tins q' = tins q2" by blast
  from same_shape_flows_cnt[OF cake_clear_tins_shape[OF c], of t] t show ?thesis by simp
qed

lemma cake_reconfigure_total:
  assumes "\<And>t. unat (flows_cnt (tins q t)) \<le> 65535"
  shows "\<exists>q'. cake_reconfigure q = Inr q'"
proof -
  have "\<And>t. unat (flows_cnt (tins (cake_mode_config q) t)) \<le> 65535"
    using assms by simp
  from cake_clear_tins_total[OF this, of "[unat (tin_cnt (cake_mode_config q))..<CAKE_MAX_TINS]"]
  obtain q2 where "cake_clear_tins [unat (tin_cnt (cake_mode_config q))..<CAKE_MAX_TINS] (cake_mode_config q) = Inr q2"
    by blast
  then show ?thesis by (simp add: cake_reconfigure_def Let_def)
qed

lemma cake_change_attrs_tins [simp]:
  "tins (cake_change_attrs tb q) = tins q" "tins_alloc (cake_change_attrs tb q) = tins_alloc q"
  by (simp_all add: cake_change_attrs_def set_flag_def Let_def split: option.splits)

lemma cake_change_flows_cnt:
  assumes "cake_change opt q = Inr (err, q')"
  shows "flows_cnt (tins q' t) = flows_cnt (tins q t)"
proof (cases opt)
  case None
  with assms show ?thesis by (simp add: cake_change_def)
next
  case (Some a)
  show ?thesis
  proof (cases a)
    case (Nla_Malformed e)
    with Some assms show ?thesis by (simp add: cake_change_def)
  next
    case (Nla_Attrs tb)
    show ?thesis
    proof (cases "tins_alloc q")
      case False
      with Some Nla_Attrs assms show ?thesis by (auto simp: cake_change_def Let_def)
    next
      case True
      with Some Nla_Attrs assms have "cake_reconfigure (cake_change_attrs tb q) = Inr q'"
        by (cases "cake_reconfigure (cake_change_attrs tb q)") (auto simp: cake_change_def Let_def)
      from cake_reconfigure_flows_cnt[OF this, of t] show ?thesis by simp
    qed
  qed
qed

lemma cake_change_total:
  assumes "\<And>t. unat (flows_cnt (tins q t)) \<le> 65535"
  shows "\<exists>q'. cake_change (Some (Nla_Attrs tb)) q = Inr (0, q')"
proof (cases "tins_alloc q")
  case False
  then show ?thesis by (simp add: cake_change_def Let_def)
next
  case True
  have "\<And>t. unat (flows_cnt (tins (cake_change_attrs tb q) t)) \<le> 65535"
    using assms by simp
  from cake_reconfigure_total[OF this] obtain q' where "cake_reconfigure (cake_change_attrs tb q) = Inr q'"
    by blast
  with True show ?thesis by (simp add: cake_change_def Let_def)
qed

lemma zero_sched_flows_cnt [simp]: "flows_cnt (tins (zero_sched mtu) t) = 0"
  by (simp add: zero_sched_def zero_tin_def)

lemma cake_init_flows_cnt:
  assumes "cake_init seeds alloc_ok opt (zero_sched mtu) = Inr (0, q')"
  shows "flows_cnt (tins q' t) = (if t < CAKE_MAX_TINS then 1024 else 0)"
proof -
  let ?q1 = "(zero_sched mtu)\<lparr>sch_limit := 10240, tin_mode := CAKE_MODE_DIFFSERV4,
                flow_mode := CAKE_FLOW_FLOWS, rate_bps := 0, interval := 100000,
                target := 5000, cur_tin := 0, cur_flow := 0\<rparr>"
  let ?c = "if opt = None then Inr (0, ?q1) else cake_change opt ?q1"
  from assms obtain err q2 where c: "?c = Inr (err, q2)"
    by (cases ?c) (auto simp: cake_init_def Let_def)
  have f2: "flows_cnt (tins q2 t) = 0"
  proof (cases "opt = None")
    case True
    with c show ?thesis by auto
  next
    case False
    with c have "cake_change opt ?q1 = Inr (err, q2)" by simp
    from cake_change_flows_cnt[OF this, of t] show ?thesis by simp
  qed
  from assms c have e: "err = 0" and ok: alloc_ok
    by (auto simp: cake_init_def Let_def ENOMEM_def split: if_splits)
  let ?q3 = "q2\<lparr>watchdog := None, tins_alloc := True,
                 tins := (\<lambda>t. if t < CAKE_MAX_TINS then cake_init_tin (seeds t) zero_tin
                               else tins q2 t)\<rparr>"
  from assms c e ok have "cake_reconfigure ?q3 = Inr q'"
    by (cases "cake_reconfigure ?q3") (auto simp: cake_init_def Let_def)
  from cake_reconfigure_flows_cnt[OF this, of t] f2 show ?thesis
    by (simp add: cake_init_tin_def)
qed

lemma cake_init_total:
  "\<exists>q'. cake_init seeds True None (zero_sched mtu) = Inr (0, q')"
proof -
  let ?q1 = "(zero_sched mtu)\<lparr>sch_limit := 10240, tin_mode := CAKE_MODE_DIFFSERV4,
                flow_mode := CAKE_FLOW_FLOWS, rate_bps := 0, interval := 100000,
                target := 5000, cur_tin := 0, cur_flow := 0\<rparr>"
  let ?q3 = "?q1\<lparr>watchdog := None, tins_alloc := True,
                 tins := (\<lambda>t. if t < CAKE_MAX_TINS then cake_init_tin (seeds t) zero_tin
                               else tins ?q1 t)\<rparr>"
  have "\<And>t. unat (flows_cnt (tins ?q3 t)) \<le> 65535"
    by (simp add: cake_init_tin_def)
  from cake_reconfigure_total[OF this] obtain q' where "cake_reconfigure ?q3 = Inr q'" by blast
  then show ?thesis by (simp add: cake_init_def Let_def)
qed

lemma cake_engine_flows_cnt:
  "cake_engine q \<Longrightarrow> flows_cnt (tins q t) = (if t < CAKE_MAX_TINS then 1024 else 0)"
proof (induction rule: cake_engine.induct)
  case (init seeds alloc_ok opt mtu q)
  then show ?case by (rule cake_init_flows_cnt)
next
  case (change q opt err q')
  from cake_change_flows_cnt[OF change.hyps(2), of t] change.IH show ?case by simp
next
  case (enqueue q now gso skb r q')
  from cake_enqueue_Inr[OF enqueue.hyps(2)] enqueue.IH show ?case
    by (simp add: same_static_def tin_static_def)
next
  case (dequeue q cm n now r' q')
  from cake_dequeue_static[OF dequeue.hyps(2)] dequeue.IH show ?case
    by (simp add: same_static_def tin_static_def)
next
  case (drop q ret q')
  from same_shape_flows_cnt[OF cake_drop_shape[OF drop.hyps(2)], of t] drop.IH show ?case by simp
next
  case (reset q q')
  from same_shape_flows_cnt[OF cake_clear_tins_shape[OF reset.hyps(2)[unfolded cake_reset_def]], of t]
    reset.IH show ?case by simp
qed

definition default_engine :: cake_sched_data where
  "default_engine = the_state (cake_init (\<lambda>t. 0) True None (zero_sched 1514))"

lemma default_engine_init:
  "cake_init (\<lambda>t. 0) True None (zero_sched 1514) = Inr (0, default_engine)"
proof -
  from cake_init_total[of "\<lambda>t. 0" 1514] obtain q' where
    "cake_init (\<lambda>t. 0) True None (zero_sched 1514) = Inr (0, q')" by blast
  then show ?thesis by (simp add: default_engine_def the_state_def)
qed

text \<open>
  C9.  A change request that carries an rtt attribute of 0 stores the interval 1, and one
  that carries a target attribute of 0 stores the target 1; other values are stored as
  they are, and an attribute that is absent leaves the stored value.  Hence after every
  successful change of an engine, the interval and the target are at least 1.
\<close>

theorem cake_change_interval_target:
  assumes "cake_engine q" and "cake_change (Some (Nla_Attrs tb)) q = Inr (err, q')"
  shows "err = 0 \<and>
         interval q' = (case TCA_CAKE_RTT tb of None \<Rightarrow> interval q
                        | Some v \<Rightarrow> if v = 0 then 1 else v) \<and>
         target q' = (case TCA_CAKE_TARGET tb of None \<Rightarrow> target q
                      | Some v \<Rightarrow> if v = 0 then 1 else v) \<and>
         1 \<le> interval q' \<and> 1 \<le> target q'"
proof -
  have e: "err = 0" using assms(2) by (auto simp: cake_change_def Let_def split: if_splits sum.splits)
  from cake_change_interval_target_eq[OF assms(2)]
  have v: "interval q' = (case TCA_CAKE_RTT tb of None \<Rightarrow> interval q
                        | Some v \<Rightarrow> if v = 0 then 1 else v)"
          "target q' = (case TCA_CAKE_TARGET tb of None \<Rightarrow> target q
                      | Some v \<Rightarrow> if v = 0 then 1 else v)" by simp_all
  from cake_change_nonzero[OF assms(2)] cake_engine_nonzero[OF assms(1)]
  have "1 \<le> interval q' \<and> 1 \<le> target q'" by (simp add: one_le_word_iff)
  with e v show ?thesis by simp
qed

theorem cake_change_interval_target_witness:
  "cake_engine default_engine \<and>
   cake_change (Some (Nla_Attrs (no_attrs\<lparr>TCA_CAKE_RTT := Some 0, TCA_CAKE_TARGET := Some 0\<rparr>)))
       default_engine =
     Inr (0, the_state (cake_change
       (Some (Nla_Attrs (no_attrs\<lparr>TCA_CAKE_RTT := Some 0, TCA_CAKE_TARGET := Some 0\<rparr>)))
       default_engine)) \<and>
   interval (the_state (cake_change
       (Some (Nla_Attrs (no_attrs\<lparr>TCA_CAKE_RTT := Some 0, TCA_CAKE_TARGET := Some 0\<rparr>)))
       default_engine)) = 1 \<and>
   target (the_state (cake_change
       (Some (Nla_Attrs (no_attrs\<lparr>TCA_CAKE_RTT := Some 0, TCA_CAKE_TARGET := Some 0\<rparr>)))
       default_engine)) = 1"
proof -
  let ?tb = "no_attrs\<lparr>TCA_CAKE_RTT := Some 0, TCA_CAKE_TARGET := Some 0\<rparr>"
  let ?q' = "the_state (cake_change (Some (Nla_Attrs ?tb)) default_engine)"
  have e: "cake_engine default_engine"
    using default_engine_init by (rule cake_engine.init)
  have "\<And>t. unat (flows_cnt (tins default_engine t)) \<le> 65535"
    by (simp add: cake_engine_flows_cnt[OF e])
  from cake_change_total[OF this, of ?tb] obtain q' where
    "cake_change (Some (Nla_Attrs ?tb)) default_engine = Inr (0, q')" by blast
  then have c: "cake_change (Some (Nla_Attrs ?tb)) default_engine = Inr (0, ?q')"
    by (simp add: the_state_def)
  from cake_change_interval_target[OF e c]
  have "interval ?q' = 1 \<and> target ?q' = 1" by (simp add: no_attrs_def)
  with e c show ?thesis by blast
qed

section \<open>The effective length (C7, C10)\<close>

text \<open>
  The overhead attribute is an \<open>s32\<close>; \<open>cake_change\<close> stores it in the \<open>s16\<close> field
  \<open>rate_overhead\<close>, which keeps its low 16 bits.
\<close>

lemma sint_ucast_s32_s16_cut:
  "sint (ucast (h :: s32) :: s16) = signed_take_bit 15 (sint h)"
proof -
  have "(ucast :: s32 \<Rightarrow> s16) = scast"
    by (rule down_cast_same) (simp add: is_down)
  then show ?thesis by (simp add: signed_scast_eq)
qed

lemma sint_ucast_s32_s16:
  assumes "- 32768 \<le> sint (h :: s32)" and "sint h < 32768"
  shows "sint (ucast h :: s16) = sint h"
  unfolding sint_ucast_s32_s16_cut using assms by (intro signed_take_bit_int_eq_self) simp_all

lemma cake_config_overhead:
  "rate_overhead (cake_config_besteffort q) = rate_overhead q \<and> rate_flags (cake_config_besteffort q) = rate_flags q"
  "rate_overhead (cake_config_precedence q) = rate_overhead q \<and> rate_flags (cake_config_precedence q) = rate_flags q"
  "rate_overhead (cake_config_diffserv8 q) = rate_overhead q \<and> rate_flags (cake_config_diffserv8 q) = rate_flags q"
  "rate_overhead (cake_config_diffserv4 q) = rate_overhead q \<and> rate_flags (cake_config_diffserv4 q) = rate_flags q"
  by (simp_all add: cake_config_besteffort_def cake_config_precedence_def cake_config_diffserv8_def
                    cake_config_diffserv4_def cake_config_tins_def upd_tin_def Let_def)

lemma cake_mode_config_overhead:
  "rate_overhead (cake_mode_config q) = rate_overhead q \<and> rate_flags (cake_mode_config q) = rate_flags q"
  by (simp add: cake_mode_config_def cake_config_overhead)

lemma cake_reconfigure_overhead:
  assumes "cake_reconfigure q = Inr q'"
  shows "rate_overhead q' = rate_overhead q \<and> rate_flags q' = rate_flags q"
proof -
  obtain q2 where
    c: "cake_clear_tins [unat (tin_cnt (cake_mode_config q))..<CAKE_MAX_TINS] (cake_mode_config q) = Inr q2"
    using assms
    by (cases "cake_clear_tins [unat (tin_cnt (cake_mode_config q))..<CAKE_MAX_TINS] (cake_mode_config q)")
       (auto simp: cake_reconfigure_def Let_def)
  with assms have e: "rate_overhead q' = rate_overhead q2 \<and> rate_flags q' = rate_flags q2"
    by (auto simp: cake_reconfigure_def Let_def)
  from cake_clear_tins_shape[OF c]
  have "rate_overhead q2 = rate_overhead (cake_mode_config q) \<and> rate_flags q2 = rate_flags (cake_mode_config q)"
    by (simp add: same_shape_def same_static_def cake_static_def)
  with e cake_mode_config_overhead[of q] show ?thesis by simp
qed

lemma cake_change_attrs_overhead:
  "rate_overhead (cake_change_attrs tb q) =
     (case TCA_CAKE_OVERHEAD tb of None \<Rightarrow> rate_overhead q | Some v \<Rightarrow> ucast v)"
  by (simp add: cake_change_attrs_def Let_def set_flag_def split: option.splits)

lemma cake_change_overhead:
  assumes "cake_change (Some (Nla_Attrs tb)) q = Inr (err, q')"
  shows "rate_overhead q' =
           (case TCA_CAKE_OVERHEAD tb of None \<Rightarrow> rate_overhead q | Some v \<Rightarrow> ucast v) \<and>
         rate_flags q' = rate_flags (cake_change_attrs tb q)"
proof (cases "tins_alloc (cake_change_attrs tb q)")
  case False
  with assms have "q' = cake_change_attrs tb q" by (simp add: cake_change_def Let_def)
  then show ?thesis by (simp add: cake_change_attrs_overhead)
next
  case True
  with assms have "cake_reconfigure (cake_change_attrs tb q) = Inr q'"
    by (cases "cake_reconfigure (cake_change_attrs tb q)") (auto simp: cake_change_def Let_def)
  from cake_reconfigure_overhead[OF this] show ?thesis
    by (simp add: cake_change_attrs_overhead)
qed

lemma cake_init_overhead:
  assumes "cake_init seeds alloc_ok None (zero_sched mtu) = Inr (0, q')"
  shows "rate_overhead q' = 0 \<and> rate_flags q' = 0"
proof -
  let ?q1 = "(zero_sched mtu)\<lparr>sch_limit := 10240, tin_mode := CAKE_MODE_DIFFSERV4,
                flow_mode := CAKE_FLOW_FLOWS, rate_bps := 0, interval := 100000,
                target := 5000, cur_tin := 0, cur_flow := 0\<rparr>"
  let ?q3 = "?q1\<lparr>watchdog := None, tins_alloc := True,
                 tins := (\<lambda>t. if t < CAKE_MAX_TINS then cake_init_tin (seeds t) zero_tin
                               else tins ?q1 t)\<rparr>"
  from assms have "cake_reconfigure ?q3 = Inr q'"
    by (cases "cake_reconfigure ?q3") (auto simp: cake_init_def Let_def ENOMEM_def split: if_splits)
  from cake_reconfigure_overhead[OF this] show ?thesis by (simp add: zero_sched_def)
qed

lemma default_engine_overhead:
  "rate_overhead default_engine = 0 \<and> rate_flags default_engine = 0"
  using default_engine_init by (rule cake_init_overhead)

lemma cake_overhead_stored_negative:
  assumes "uint L + sint (rate_overhead q) < 0"
  shows "cake_overhead q L =
           (let out = (word_of_int ((uint L + sint (rate_overhead q)) mod 2 ^ 32) :: u32) in
            if rate_flags q AND CAKE_FLAG_ATM \<noteq> 0 then ((out + 47) div 48) * 53 else out) \<and>
         (rate_flags q AND CAKE_FLAG_ATM = 0 \<longrightarrow>
            uint (cake_overhead q L) = 2 ^ 32 + (uint L + sint (rate_overhead q)) \<and>
            2 ^ 32 - 32768 \<le> uint (cake_overhead q L))"
proof -
  let ?x = "uint L + sint (rate_overhead q)"
  have lo: "- 32768 \<le> ?x"
    using sint_s16_bounds[of "rate_overhead q"] uint_ge_0[of L] by linarith
  have m: "?x mod 2 ^ 32 = 2 ^ 32 + ?x"
    using assms lo by (rule mod_2_32_neg)
  have w: "L + scast (rate_overhead q) = (word_of_int (?x mod 2 ^ 32) :: u32)"
    by (simp only: uint_add_overhead[symmetric] word_of_int_uint)
  have u: "uint (L + scast (rate_overhead q) :: u32) = ?x mod 2 ^ 32"
    by (rule uint_add_overhead)
  have 1: "cake_overhead q L =
           (let out = (word_of_int (?x mod 2 ^ 32) :: u32) in
            if rate_flags q AND CAKE_FLAG_ATM \<noteq> 0 then ((out + 47) div 48) * 53 else out)"
    unfolding cake_overhead_def w by (rule refl)
  have 2: "rate_flags q AND CAKE_FLAG_ATM = 0 \<longrightarrow>
            uint (cake_overhead q L) = 2 ^ 32 + ?x \<and>
            2 ^ 32 - 32768 \<le> uint (cake_overhead q L)"
    using m lo u by (simp add: cake_overhead_def Let_def)
  from 1 2 show ?thesis by (rule conjI)
qed

lemma cake_overhead_stored_fits:
  assumes "0 \<le> uint L + sint (rate_overhead q)"
  shows "(rate_flags q AND CAKE_FLAG_ATM = 0 \<longrightarrow>
            uint L + sint (rate_overhead q) < 2 ^ 32 \<longrightarrow>
            uint (cake_overhead q L) = uint L + sint (rate_overhead q)) \<and>
         (rate_flags q AND CAKE_FLAG_ATM \<noteq> 0 \<longrightarrow>
            \<lceil>real_of_int (uint L + sint (rate_overhead q)) / 48\<rceil> * 53 < 2 ^ 32 \<longrightarrow>
            uint (cake_overhead q L) =
              \<lceil>real_of_int (uint L + sint (rate_overhead q)) / 48\<rceil> * 53)"
proof -
  let ?x = "uint L + sint (rate_overhead q)"
  let ?w = "L + scast (rate_overhead q) :: u32"
  have u: "uint ?w = ?x mod 2 ^ 32" by (rule uint_add_overhead)
  have plain: "rate_flags q AND CAKE_FLAG_ATM = 0 \<longrightarrow> ?x < 2 ^ 32 \<longrightarrow>
                 uint (cake_overhead q L) = ?x"
    using assms u by (simp add: cake_overhead_def Let_def mod_pos_pos_trivial)
  have atm: "rate_flags q AND CAKE_FLAG_ATM \<noteq> 0 \<longrightarrow>
               \<lceil>real_of_int ?x / 48\<rceil> * 53 < 2 ^ 32 \<longrightarrow>
               uint (cake_overhead q L) = \<lceil>real_of_int ?x / 48\<rceil> * 53"
  proof (intro impI)
    assume f: "rate_flags q AND CAKE_FLAG_ATM \<noteq> 0"
       and b: "\<lceil>real_of_int ?x / 48\<rceil> * 53 < 2 ^ 32"
    from b have b': "((?x + 47) div 48) * 53 < 2 ^ 32" by (simp only: ceiling_div_48)
    with assms have "?x < 2 ^ 32" by simp
    with assms u have "uint ?w = ?x" by (simp add: mod_pos_pos_trivial)
    from atm_cells_u32[OF assms b' this] f
    have "uint (cake_overhead q L) = ((?x + 47) div 48) * 53"
      by (simp add: cake_overhead_def Let_def)
    then show "uint (cake_overhead q L) = \<lceil>real_of_int ?x / 48\<rceil> * 53"
      by (simp only: ceiling_div_48)
  qed
  from plain atm show ?thesis by (rule conjI)
qed

text \<open>
  The overhead a state works with after a change request that carried the attribute \<open>h\<close>:
  the \<open>s32\<close> value cut to the \<open>s16\<close> field, kept by whatever keeps the configuration.
\<close>

lemma configured_overhead:
  assumes "cake_change (Some (Nla_Attrs tb)) q0 = Inr (err, q1)"
    and "TCA_CAKE_OVERHEAD tb = Some h"
    and "same_static q1 q"
  shows "rate_overhead q = ucast h"
proof -
  from cake_change_overhead[OF assms(1)] assms(2) have "rate_overhead q1 = ucast h" by simp
  with assms(3) show ?thesis by (simp add: same_static_def cake_static_def)
qed

text \<open>Engines that were given an overhead, and ATM mode or not, by a change request.\<close>

definition overhead_attrs :: "s32 \<Rightarrow> u32 \<Rightarrow> cake_attrs" where
  "overhead_attrs h atm = no_attrs\<lparr>TCA_CAKE_OVERHEAD := Some h, TCA_CAKE_ATM := Some atm\<rparr>"

definition overhead_engine :: "s32 \<Rightarrow> u32 \<Rightarrow> cake_sched_data" where
  "overhead_engine h atm =
     the_state (cake_change (Some (Nla_Attrs (overhead_attrs h atm))) default_engine)"

lemma overhead_engine_change:
  "cake_change (Some (Nla_Attrs (overhead_attrs h atm))) default_engine =
     Inr (0, overhead_engine h atm)"
proof -
  have e: "cake_engine default_engine"
    using default_engine_init by (rule cake_engine.init)
  have "\<And>t. unat (flows_cnt (tins default_engine t)) \<le> 65535"
    by (simp add: cake_engine_flows_cnt[OF e])
  from cake_change_total[OF this, of "overhead_attrs h atm"] obtain q' where
    "cake_change (Some (Nla_Attrs (overhead_attrs h atm))) default_engine = Inr (0, q')" by blast
  then show ?thesis by (simp add: overhead_engine_def the_state_def)
qed

lemma overhead_engine_stored:
  "rate_overhead (overhead_engine h atm) = ucast h"
  "rate_flags (overhead_engine h atm) AND CAKE_FLAG_ATM = 0 \<longleftrightarrow> atm = 0"
  using cake_change_overhead[OF overhead_engine_change[of h atm]]
  by (simp_all add: overhead_attrs_def no_attrs_def cake_change_attrs_def set_flag_def Let_def
                    default_engine_overhead CAKE_FLAG_ATM_def)

text \<open>
  C10, as amended.  The effective length is computed in unsigned 32-bit arithmetic, on the
  overhead as the field \<open>rate_overhead\<close> holds it: \<open>cake_change\<close> cuts the configured
  \<open>s32\<close> attribute to that \<open>s16\<close>.  For a packet of length \<open>L\<close> and a configured overhead
  \<open>h\<close> that fits 16 bits (\<open>-32768 \<le> h\<close>) with \<open>L + h < 0\<close>, \<open>cake_overhead\<close> yields
  \<open>(L + h) mod 2^32\<close> and then applies the ATM scaling, in 32 bits as well, to that value
  if ATM mode is on.  Nothing is clamped at zero: with ATM mode off the result is
  \<open>2^32 + (L + h)\<close>, at least \<open>2^32 - 32768\<close>.
\<close>

theorem cake_overhead_negative_wraps:
  assumes "cake_change (Some (Nla_Attrs tb)) q0 = Inr (err, q1)"
    and "TCA_CAKE_OVERHEAD tb = Some h"
    and "same_static q1 q"
    and "- 32768 \<le> sint h"
    and "uint L + sint h < 0"
  shows "cake_overhead q L =
           (let out = (word_of_int ((uint L + sint h) mod 2 ^ 32) :: u32) in
            if rate_flags q AND CAKE_FLAG_ATM \<noteq> 0 then ((out + 47) div 48) * 53 else out) \<and>
         (rate_flags q AND CAKE_FLAG_ATM = 0 \<longrightarrow>
            uint (cake_overhead q L) = (uint L + sint h) mod 2 ^ 32 \<and>
            uint (cake_overhead q L) = 2 ^ 32 + (uint L + sint h) \<and>
            2 ^ 32 - 32768 \<le> uint (cake_overhead q L))"
proof -
  have "sint h < 0" using assms(5) uint_ge_0[of L] by linarith
  with assms(4) have s: "sint (ucast h :: s16) = sint h"
    by (intro sint_ucast_s32_s16) simp_all
  have r: "sint (rate_overhead q) = sint h"
    using configured_overhead[OF assms(1,2,3)] s by simp
  have neg: "uint L + sint (rate_overhead q) < 0" using assms(5) r by simp
  have m: "(uint L + sint h) mod 2 ^ 32 = 2 ^ 32 + (uint L + sint h)"
    using assms(5) assms(4) uint_ge_0[of L] by (intro mod_2_32_neg) linarith+
  note st = cake_overhead_stored_negative[OF neg, unfolded r]
  from st have 1: "cake_overhead q L =
           (let out = (word_of_int ((uint L + sint h) mod 2 ^ 32) :: u32) in
            if rate_flags q AND CAKE_FLAG_ATM \<noteq> 0 then ((out + 47) div 48) * 53 else out)"
    by (rule conjunct1)
  from st have 2: "rate_flags q AND CAKE_FLAG_ATM = 0 \<longrightarrow>
            uint (cake_overhead q L) = 2 ^ 32 + (uint L + sint h) \<and>
            2 ^ 32 - 32768 \<le> uint (cake_overhead q L)"
    by (rule conjunct2)
  from 2 have 3: "rate_flags q AND CAKE_FLAG_ATM = 0 \<longrightarrow>
            uint (cake_overhead q L) = (uint L + sint h) mod 2 ^ 32"
    by (simp only: m) blast
  from 1 2 3 show ?thesis by blast
qed

theorem cake_overhead_negative_wraps_witness:
  "cake_change (Some (Nla_Attrs (overhead_attrs (- 100) 0))) default_engine =
     Inr (0, overhead_engine (- 100) 0) \<and>
   TCA_CAKE_OVERHEAD (overhead_attrs (- 100) 0) = Some (- 100) \<and>
   same_static (overhead_engine (- 100) 0) (overhead_engine (- 100) 0) \<and>
   - 32768 \<le> sint (- 100 :: s32) \<and>
   uint (40 :: u32) + sint (- 100 :: s32) < 0 \<and>
   rate_flags (overhead_engine (- 100) 0) AND CAKE_FLAG_ATM = 0 \<and>
   cake_overhead (overhead_engine (- 100) 0) 40 = 4294967236"
proof -
  have a: "TCA_CAKE_OVERHEAD (overhead_attrs (- 100) 0) = Some (- 100)"
    by (simp add: overhead_attrs_def no_attrs_def)
  have f: "rate_flags (overhead_engine (- 100) 0) AND CAKE_FLAG_ATM = 0"
    by (simp add: overhead_engine_stored)
  have lo: "- 32768 \<le> sint (- 100 :: s32)" by simp
  have neg: "uint (40 :: u32) + sint (- 100 :: s32) < 0" by simp
  from cake_overhead_negative_wraps[OF overhead_engine_change a same_static_refl lo neg] f
  have "cake_overhead (overhead_engine (- 100) 0) 40 = 4294967236"
    by (simp add: Let_def)
  with overhead_engine_change a f lo neg show ?thesis by simp
qed

text \<open>
  The claim as stated fails for a configured overhead below \<open>-32768\<close>: an overhead of
  \<open>-40000\<close> is stored as 25536, and a packet of 100 bytes gets the effective length
  25636, not \<open>(100 - 40000) mod 2^32 = 4294927396\<close>.  With ATM mode on the wrapped value
  is scaled in 32 bits and is not near \<open>2^32\<close>: an overhead of \<open>-110\<close> gives a packet of
  100 bytes the effective length 0.
\<close>

theorem cake_overhead_negative_wraps_counterexample:
  "cake_change (Some (Nla_Attrs (overhead_attrs (- 40000) 0))) default_engine =
     Inr (0, overhead_engine (- 40000) 0) \<and>
   uint (100 :: u32) + sint (- 40000 :: s32) < 0 \<and>
   (uint (100 :: u32) + sint (- 40000 :: s32)) mod 2 ^ 32 = 4294927396 \<and>
   rate_flags (overhead_engine (- 40000) 0) AND CAKE_FLAG_ATM = 0 \<and>
   uint (cake_overhead (overhead_engine (- 40000) 0) 100) = 25636 \<and>
   cake_change (Some (Nla_Attrs (overhead_attrs (- 110) 1))) default_engine =
     Inr (0, overhead_engine (- 110) 1) \<and>
   uint (100 :: u32) + sint (- 110 :: s32) < 0 \<and>
   rate_flags (overhead_engine (- 110) 1) AND CAKE_FLAG_ATM \<noteq> 0 \<and>
   uint (cake_overhead (overhead_engine (- 110) 1) 100) = 0"
  by (simp add: overhead_engine_change overhead_engine_stored cake_overhead_def Let_def)

text \<open>
  C7, as amended.  For a packet of length \<open>L\<close> and a configured overhead \<open>h\<close> that fits
  the 16-bit field it is stored in (\<open>-32768 \<le> h \<le> 32767\<close>), with \<open>0 \<le> L + h\<close>, the
  effective length is \<open>L + h\<close> when ATM mode is off and \<open>L + h < 2^32\<close>, and
  \<open>ceil((L + h) / 48) * 53\<close> when ATM mode is on and that product is below \<open>2^32\<close>.  On
  emission, this length is what is taken off the deficit of the flow and of the tin, and
  what moves the tin's and the global shaper clock.
\<close>

theorem cake_overhead_effective_length:
  assumes "cake_change (Some (Nla_Attrs tb)) q0 = Inr (err, q1)"
    and "TCA_CAKE_OVERHEAD tb = Some h"
    and "same_static q1 q"
    and "- 32768 \<le> sint h" and "sint h \<le> 32767"
    and "0 \<le> uint (pkt_len skb) + sint h"
  shows "(rate_flags q AND CAKE_FLAG_ATM = 0 \<longrightarrow>
            uint (pkt_len skb) + sint h < 2 ^ 32 \<longrightarrow>
            uint (cake_overhead q (pkt_len skb)) = uint (pkt_len skb) + sint h) \<and>
         (rate_flags q AND CAKE_FLAG_ATM \<noteq> 0 \<longrightarrow>
            \<lceil>real_of_int (uint (pkt_len skb) + sint h) / 48\<rceil> * 53 < 2 ^ 32 \<longrightarrow>
            uint (cake_overhead q (pkt_len skb)) =
              \<lceil>real_of_int (uint (pkt_len skb) + sint h) / 48\<rceil> * 53) \<and>
         deficit (flows (tins (cake_charge idx skb q) (unat (cur_tin q))) idx) =
           deficit (flows (tins q (unat (cur_tin q))) idx) - cake_overhead q (pkt_len skb) \<and>
         tin_deficit (tins (cake_charge idx skb q) (unat (cur_tin q))) =
           tin_deficit (tins q (unat (cur_tin q))) - cake_overhead q (pkt_len skb) \<and>
         tin_time_next_packet (tins (cake_charge idx skb q) (unat (cur_tin q))) =
           tin_time_next_packet (tins q (unat (cur_tin q))) +
             drop_bit (unat (tin_rate_shft (tins q (unat (cur_tin q)))))
               (ucast (cake_overhead q (pkt_len skb)) * ucast (tin_rate_ns (tins q (unat (cur_tin q))))) \<and>
         time_next_packet (cake_charge idx skb q) =
           time_next_packet q +
             drop_bit (unat (rate_shft q)) (ucast (cake_overhead q (pkt_len skb)) * ucast (rate_ns q))"
proof -
  have s: "sint (ucast h :: s16) = sint h"
    using assms(4,5) by (intro sint_ucast_s32_s16) simp_all
  have r: "sint (rate_overhead q) = sint h"
    using configured_overhead[OF assms(1,2,3)] s by simp
  have pos: "0 \<le> uint (pkt_len skb) + sint (rate_overhead q)" using assms(6) r by simp
  note len = cake_overhead_stored_fits[OF pos, unfolded r]
  have d: "deficit (flows (tins (cake_charge idx skb q) (unat (cur_tin q))) idx) =
           deficit (flows (tins q (unat (cur_tin q))) idx) - cake_overhead q (pkt_len skb)"
    by (simp add: cake_charge_tin Let_def cake_tin_advance_def upd_flow_def)
  have td: "tin_deficit (tins (cake_charge idx skb q) (unat (cur_tin q))) =
           tin_deficit (tins q (unat (cur_tin q))) - cake_overhead q (pkt_len skb)"
    by (simp add: cake_charge_tin Let_def cake_tin_advance_def upd_flow_def)
  have tc: "tin_time_next_packet (tins (cake_charge idx skb q) (unat (cur_tin q))) =
           tin_time_next_packet (tins q (unat (cur_tin q))) +
             drop_bit (unat (tin_rate_shft (tins q (unat (cur_tin q)))))
               (ucast (cake_overhead q (pkt_len skb)) * ucast (tin_rate_ns (tins q (unat (cur_tin q)))))"
    by (simp add: cake_charge_tin Let_def cake_tin_advance_def upd_flow_def)
  from len d td tc cake_charge_global[of idx skb q] show ?thesis by blast
qed

theorem cake_overhead_effective_length_witness:
  "cake_change (Some (Nla_Attrs (overhead_attrs 40 1))) default_engine =
     Inr (0, overhead_engine 40 1) \<and>
   TCA_CAKE_OVERHEAD (overhead_attrs 40 1) = Some 40 \<and>
   same_static (overhead_engine 40 1) (overhead_engine 40 1) \<and>
   - 32768 \<le> sint (40 :: s32) \<and> sint (40 :: s32) \<le> 32767 \<and>
   0 \<le> uint (pkt_len (sample_skb 1000)) + sint (40 :: s32) \<and>
   rate_flags (overhead_engine 40 1) AND CAKE_FLAG_ATM \<noteq> 0 \<and>
   uint (cake_overhead (overhead_engine 40 1) (pkt_len (sample_skb 1000))) = 1166"
proof -
  have a: "TCA_CAKE_OVERHEAD (overhead_attrs 40 1) = Some 40"
    by (simp add: overhead_attrs_def no_attrs_def)
  have f: "rate_flags (overhead_engine 40 1) AND CAKE_FLAG_ATM \<noteq> 0"
    by (simp add: overhead_engine_stored)
  have p: "pkt_len (sample_skb 1000) = 1000" by (simp add: sample_skb_def)
  have lo: "- 32768 \<le> sint (40 :: s32)" and hi: "sint (40 :: s32) \<le> 32767" by simp_all
  have pos: "0 \<le> uint (pkt_len (sample_skb 1000)) + sint (40 :: s32)" by (simp add: p)
  have c: "\<lceil>real_of_int (uint (pkt_len (sample_skb 1000)) + sint (40 :: s32)) / 48\<rceil> = 22"
    by (simp add: p ceiling_div_48)
  from cake_overhead_effective_length[OF overhead_engine_change a same_static_refl lo hi pos, of 0] f c
  have "uint (cake_overhead (overhead_engine 40 1) (pkt_len (sample_skb 1000))) = 1166"
    by simp
  with overhead_engine_change a f lo hi pos show ?thesis by simp
qed

text \<open>
  The claim as stated fails for a configured overhead that does not fit 16 bits: an
  overhead of 40000 is stored as \<open>-25536\<close>, and with ATM mode off a packet of 1000 bytes
  gets the effective length \<open>2^32 - 24536 = 4294942760\<close>, not 41000.  It also fails where
  \<open>L + h\<close> does not fit the 32 bits of the computation: a length of \<open>2^32 - 1\<close> and an
  overhead of 1 give the effective length 0.
\<close>

theorem cake_overhead_effective_length_counterexample:
  "cake_change (Some (Nla_Attrs (overhead_attrs 40000 0))) default_engine =
     Inr (0, overhead_engine 40000 0) \<and>
   rate_flags (overhead_engine 40000 0) AND CAKE_FLAG_ATM = 0 \<and>
   0 \<le> uint (pkt_len (sample_skb 1000)) + sint (40000 :: s32) \<and>
   uint (pkt_len (sample_skb 1000)) + sint (40000 :: s32) = 41000 \<and>
   uint (cake_overhead (overhead_engine 40000 0) (pkt_len (sample_skb 1000))) = 4294942760 \<and>
   cake_change (Some (Nla_Attrs (overhead_attrs 1 0))) default_engine =
     Inr (0, overhead_engine 1 0) \<and>
   rate_flags (overhead_engine 1 0) AND CAKE_FLAG_ATM = 0 \<and>
   uint (4294967295 :: u32) + sint (1 :: s32) = 4294967296 \<and>
   uint (cake_overhead (overhead_engine 1 0) 4294967295) = 0"
  by (simp add: overhead_engine_change overhead_engine_stored cake_overhead_def Let_def
                sample_skb_def)

section \<open>The default engine and some runs\<close>

text \<open>A scheduler that holds no packet; clearing it moves the cursors only.\<close>

definition idle :: "cake_sched_data \<Rightarrow> bool" where
  "idle q \<longleftrightarrow> (\<forall>t i. queue (flows (tins q t) i) = [])"

lemma cake_clear_flow_idle: "cursor_queue q = [] \<Longrightarrow> cake_clear_flow q = q"
  by (subst cake_clear_flow.simps)
     (simp add: custom_dequeue_def dequeue_head_def cursor_queue_def Let_def)

lemma cake_clear_flows_idle:
  assumes "idle q" and "unat (flows_cnt (tins q tin)) \<le> 65535"
    and "unat (cur_flow q) \<le> unat (flows_cnt (tins q tin))"
  shows "cake_clear_flows tin q = Inr (q\<lparr>cur_flow := ucast (flows_cnt (tins q tin))\<rparr>)"
  using assms
proof (induction "65536 - unat (cur_flow q)" arbitrary: q rule: less_induct)
  case less
  let ?n = "flows_cnt (tins q tin)"
  have u: "unat (ucast (cur_flow q) :: u32) = unat (cur_flow q)"
  proof (rule unat_ucast_small)
    have "unat (cur_flow q) < 2 ^ 16" using unsigned_less[of "cur_flow q", where ?'a = nat] by simp
    also have "(2::nat) ^ 16 < 2 ^ LENGTH(32)" by simp
    finally show "unat (cur_flow q) < 2 ^ LENGTH(32)" .
  qed
  have n16: "unat (ucast ?n :: u16) = unat ?n"
    using less.prems(2) by (intro unat_ucast_small) simp
  show ?case
  proof (cases "ucast (cur_flow q) < ?n")
    case False
    then have "unat ?n \<le> unat (cur_flow q)" by (simp add: word_less_nat_alt u)
    with less.prems(3) have "unat (cur_flow q) = unat (ucast ?n :: u16)" by (simp add: n16)
    then have "cur_flow q = ucast ?n" by (simp only: word_unat_eq_iff)
    then have "q\<lparr>cur_flow := ucast ?n\<rparr> = q" by simp
    with False show ?thesis by (simp add: cake_clear_flows.simps[of tin q])
  next
    case True
    then have lt0: "unat (cur_flow q) < unat ?n" by (simp add: word_less_nat_alt u)
    with less.prems(2) have lt: "unat (cur_flow q) < 65535" by simp
    then have ne: "cur_flow q \<noteq> 0xFFFF" by auto
    from lt have s: "unat (cur_flow q + 1) = unat (cur_flow q) + 1"
      by (simp add: unat_word_ariths)
    have cq: "cursor_queue q = []" using less.prems(1) by (simp add: idle_def cursor_queue_def)
    have c1: "cake_clear_flow q = q" using cq by (rule cake_clear_flow_idle)
    let ?q2 = "q\<lparr>cur_flow := cur_flow q + 1\<rparr>"
    have m: "65536 - unat (cur_flow ?q2) < 65536 - unat (cur_flow q)"
      using lt s by simp
    have i2: "idle ?q2" using less.prems(1) by (simp add: idle_def)
    have "cake_clear_flows tin ?q2 = Inr (?q2\<lparr>cur_flow := ucast (flows_cnt (tins ?q2 tin))\<rparr>)"
      using less.hyps[OF m i2] less.prems(2) lt0 s by simp
    with True ne show ?thesis
      by (simp add: cake_clear_flows.simps[of tin q] Let_def c1)
  qed
qed

lemma cake_clear_tin_idle:
  assumes "idle q" and "unat (flows_cnt (tins q (unat tin))) \<le> 65535"
  shows "cake_clear_tin tin q =
           Inr (q\<lparr>cur_tin := tin, cur_flow := ucast (flows_cnt (tins q (unat tin)))\<rparr>)"
proof -
  let ?q0 = "q\<lparr>cur_tin := tin, cur_flow := 0\<rparr>"
  have "idle ?q0" using assms(1) by (simp add: idle_def)
  from cake_clear_flows_idle[OF this, of "unat tin"] assms(2) show ?thesis
    by (simp add: cake_clear_tin_def)
qed

lemma cake_clear_tins_idle:
  assumes "idle q" and "\<And>t. unat (flows_cnt (tins q t)) \<le> 65535"
  shows "cake_clear_tins (c # cs) q =
           cake_clear_tins cs (q\<lparr>cur_tin := of_nat c,
                                  cur_flow := ucast (flows_cnt (tins q (unat (of_nat c :: u16))))\<rparr>)"
  using cake_clear_tin_idle[OF assms(1), of "of_nat c"] assms(2) by simp

text \<open>The engine that \<open>cake_init\<close> sets up when no options are given.\<close>

definition default_tin :: "nat \<Rightarrow> cake_tin_data" where
  "default_tin t =
     (if t < 4 then
        zero_tin\<lparr>flows_cnt := 1024, quantum := 1514,
                  tin_quantum_prio := (if t = 0 then 16 else if t = 1 then 256
                                       else if t = 2 then 1024 else 4096),
                  tin_quantum_band := (if t = 0 then 16 else if t = 1 then 48
                                       else if t = 2 then 128 else 64)\<rparr>
      else if t < 8 then zero_tin\<lparr>flows_cnt := 1024\<rparr>
      else zero_tin)"

lemma upt_4_8: "[4..<8] = [4, 5, 6, 7::nat]"
  by (simp add: upt_rec)

lemma idle_cursors [simp]:
  "idle (q\<lparr>cur_tin := x\<rparr>) = idle q" "idle (q\<lparr>cur_flow := y\<rparr>) = idle q"
  by (simp_all add: idle_def)

lemma cake_clear_tins_idle_all:
  assumes "idle q" and "\<And>t. unat (flows_cnt (tins q t)) \<le> 65535" and "cs \<noteq> []"
  shows "cake_clear_tins cs q =
           Inr (q\<lparr>cur_tin := of_nat (last cs),
                   cur_flow := ucast (flows_cnt (tins q (unat (of_nat (last cs) :: u16))))\<rparr>)"
  using assms
proof (induction cs arbitrary: q)
  case Nil
  then show ?case by simp
next
  case (Cons c cs)
  let ?q1 = "q\<lparr>cur_tin := of_nat c,
                cur_flow := ucast (flows_cnt (tins q (unat (of_nat c :: u16))))\<rparr>"
  have step: "cake_clear_tins (c # cs) q = cake_clear_tins cs ?q1"
    using Cons.prems(1,2) by (rule cake_clear_tins_idle)
  show ?case
  proof (cases "cs = []")
    case True
    with step show ?thesis by simp
  next
    case False
    have "idle ?q1" using Cons.prems(1) by simp
    from Cons.IH[OF this _ False] Cons.prems(2) step False show ?thesis by simp
  qed
qed

lemma default_engine_eq:
  "default_engine =
     (zero_sched 1514)\<lparr>tins := default_tin, tins_alloc := True,
        cparams := \<lparr>cp_target = 5000000, cp_interval = 100000000\<rparr>,
        tin_cnt := 4, tin_mode := CAKE_MODE_DIFFSERV4, flow_mode := CAKE_FLOW_FLOWS,
        interval := 100000, target := 5000, buffer_limit := 15503360,
        cur_tin := 7, cur_flow := 1024,
        tin_index := (\<lambda>i. if i < 64 then diffserv4_index i else 0),
        sch_limit := 10240, sch_can_bypass := True\<rparr>"
proof -
  let ?q3 = "(zero_sched 1514)\<lparr>sch_limit := 10240, tin_mode := CAKE_MODE_DIFFSERV4,
                flow_mode := CAKE_FLOW_FLOWS, rate_bps := 0, interval := 100000,
                target := 5000, cur_tin := 0, cur_flow := 0, watchdog := None, tins_alloc := True,
                tins := (\<lambda>t. if t < 8 then cake_init_tin 0 zero_tin else zero_tin)\<rparr>"
  let ?q4 = "cake_mode_config ?q3"
  have t4: "tins ?q4 = default_tin"
    by (simp add: fun_eq_iff cake_mode_config_def cake_config_diffserv4_def Let_def upd_tin_def
          cake_set_rate_def default_tin_def cake_init_tin_def zero_sched_def zero_tin_def
          zero_flow_def CAKE_MAX_TINS_def CAKE_MODE_DIFFSERV4_def CAKE_MODE_PRECEDENCE_def
          CAKE_MODE_DIFFSERV8_def)
  have q4: "?q4 = ?q3\<lparr>tin_cnt := 4,
                 tin_index := (\<lambda>i. if i < 64 then diffserv4_index i else 0),
                 tins := default_tin\<rparr>"
    by (simp add: fun_eq_iff cake_mode_config_def cake_config_diffserv4_def Let_def upd_tin_def
          cake_set_rate_def default_tin_def cake_init_tin_def zero_sched_def zero_tin_def
          zero_flow_def CAKE_MAX_TINS_def CAKE_MODE_DIFFSERV4_def CAKE_MODE_PRECEDENCE_def
          CAKE_MODE_DIFFSERV8_def)
  have i4: "idle ?q4"
    by (simp add: t4 idle_def default_tin_def zero_tin_def zero_flow_def)
  have f4: "\<And>t. unat (flows_cnt (tins ?q4 t)) \<le> 65535"
    by (simp add: t4 default_tin_def zero_tin_def)
  have c4: "cake_clear_tins [4, 5, 6, 7] ?q4 = Inr (?q4\<lparr>cur_tin := 7, cur_flow := 1024\<rparr>)"
    using cake_clear_tins_idle_all[OF i4 f4, of "[4, 5, 6, 7]"]
    by (simp add: t4 default_tin_def zero_tin_def)
  have cnt: "unat (tin_cnt ?q4) = 4" by (simp add: q4)
  have r: "cake_reconfigure ?q3 =
             Inr ((zero_sched 1514)\<lparr>tins := default_tin, tins_alloc := True,
        cparams := \<lparr>cp_target = 5000000, cp_interval = 100000000\<rparr>,
        tin_cnt := 4, tin_mode := CAKE_MODE_DIFFSERV4, flow_mode := CAKE_FLOW_FLOWS,
        interval := 100000, target := 5000, buffer_limit := 15503360,
        cur_tin := 7, cur_flow := 1024,
        tin_index := (\<lambda>i. if i < 64 then diffserv4_index i else 0),
        sch_limit := 10240, sch_can_bypass := True\<rparr>)"
    apply (simp only: cake_reconfigure_def Let_def cnt CAKE_MAX_TINS_def upt_4_8 c4)
    apply (simp only: q4)
    apply (simp add: zero_sched_def default_tin_def zero_tin_def US2TIME_def)
    done
  let ?q1 = "(zero_sched 1514)\<lparr>sch_limit := 10240, tin_mode := CAKE_MODE_DIFFSERV4,
                flow_mode := CAKE_FLOW_FLOWS, rate_bps := 0, interval := 100000,
                target := 5000, cur_tin := 0, cur_flow := 0\<rparr>"
  let ?q3' = "?q1\<lparr>watchdog := None, tins_alloc := True,
                 tins := (\<lambda>t. if t < CAKE_MAX_TINS then cake_init_tin ((\<lambda>t. 0) t) zero_tin
                               else tins ?q1 t)\<rparr>"
  from default_engine_init have i: "cake_reconfigure ?q3' = Inr default_engine"
    by (cases "cake_reconfigure ?q3'") (auto simp: cake_init_def Let_def)
  have e: "?q3' = ?q3"
    by (simp add: zero_sched_def CAKE_MAX_TINS_def cong: if_cong)
  from i r show ?thesis by (simp only: e sum.inject)
qed

lemma word_4_le_1 [simp]: "\<not> (4::u32) \<le> 1"
  by (simp add: word_le_nat_alt)

lemmas eng_defs = default_engine_eq default_tin_def diffserv4_index_def the_state_def
  zero_sched_def zero_tin_def zero_flow_def zero_cvars_def sample_skb_def pass_all_def
  CAKE_MODE_DIFFSERV4_def CAKE_FLOW_FLOWS_def

definition flow_skb :: "u32 \<Rightarrow> u32 \<Rightarrow> sk_buff" where
  "flow_skb n h = (sample_skb n)\<lparr>flow_hash := h\<rparr>"

text \<open>
  Packets for the examples: \<open>flow_skb n h\<close> has \<open>n\<close> bytes and the flow hash \<open>h\<close>.  With
  1024 flows in a tin, the hash 0 falls on flow 0 and the hash \<open>2^22\<close> on flow 1; the
  codepoint 0 falls on tin 1 of the four-class mode.
\<close>

definition queued :: "sk_buff \<Rightarrow> u64 \<Rightarrow> cake_flow" where
  "queued skb now = zero_flow\<lparr>queue := [skb\<lparr>enqueue_time := now\<rparr>], deficit := 1514\<rparr>"

text \<open>The default engine after a packet for flow 0 was enqueued at time 1000.\<close>

definition eng_a :: cake_sched_data where
  "eng_a = default_engine\<lparr>tins := default_tin(1 := (default_tin 1)
       \<lparr>flows := (\<lambda>i. zero_flow)(0 := queued (flow_skb 1000 0) 1000),
        backlogs := (\<lambda>i. 0)(0 := 1000), new_flows := [0], tin_time_next_packet := 1000,
        tin_backlog := 1000, packets := 1, bytes := 1000\<rparr>),
     time_next_packet := 1000, buffer_used := 1256, sch_qlen := 1, sch_backlog := 1000\<rparr>"

text \<open>Then a packet for flow 1 was enqueued.\<close>

definition eng_ab :: cake_sched_data where
  "eng_ab = default_engine\<lparr>tins := default_tin(1 := (default_tin 1)
       \<lparr>flows := (\<lambda>i. zero_flow)(0 := queued (flow_skb 1000 0) 1000,
                                   1 := queued (flow_skb 1000 4194304) 1000),
        backlogs := (\<lambda>i. 0)(0 := 1000, 1 := 1000), new_flows := [0, 1],
        tin_time_next_packet := 1000, tin_backlog := 2000, packets := 2, bytes := 2000\<rparr>),
     time_next_packet := 1000, buffer_used := 2512, sch_qlen := 2, sch_backlog := 2000\<rparr>"

text \<open>Then the packet of flow 0 was dequeued at time 2000.\<close>

definition eng_b :: cake_sched_data where
  "eng_b = default_engine\<lparr>tins := default_tin
       (7 := default_tin 7,
        2 := (default_tin 2)\<lparr>tin_deficit := 1024\<rparr>,
        3 := (default_tin 3)\<lparr>tin_deficit := 4096\<rparr>,
        1 := (default_tin 1)
          \<lparr>flows := (\<lambda>i. zero_flow)(1 := queued (flow_skb 1000 4194304) 1000,
                                      0 := zero_flow\<lparr>deficit := 514\<rparr>),
           backlogs := (\<lambda>i. 0)(1 := 1000, 0 := 0), new_flows := [0, 1],
           tin_time_next_packet := 1000, tin_deficit := - 744, tin_backlog := 1000,
           packets := 2, bytes := 2000\<rparr>,
        0 := (default_tin 0)\<lparr>tin_deficit := 16\<rparr>),
     time_next_packet := 1000, buffer_used := 1256, sch_qlen := 1, sch_backlog := 1000,
     cur_tin := 1, cur_flow := 0\<rparr>"

lemmas run_defs = flow_skb_def queued_def eng_defs enq_defs deq_defs
  word_le_nat_alt word_less_nat_alt

lemma eng_a_run:
  "cake_enqueue 1000 Not_GSO (flow_skb 1000 0) default_engine = Inr (NET_XMIT_SUCCESS, eng_a)"
  by (simp add: eng_a_def run_defs)

lemma eng_ab_run:
  "cake_enqueue 1000 Not_GSO (flow_skb 1000 4194304) eng_a = Inr (NET_XMIT_SUCCESS, eng_ab)"
  by (simp add: eng_a_def eng_ab_def run_defs)

lemma eng_b_run:
  "cake_dequeue pass_all 10 2000 eng_ab =
     Some (Some ((flow_skb 1000 0)\<lparr>enqueue_time := 1000\<rparr>), eng_b)"
  by (simp add: eng_ab_def eng_b_def run_defs)

section \<open>The parts of \<open>cake_enqueue\<close>\<close>

text \<open>
  The tin and the flow that \<open>cake_enqueue\<close> computes for a packet (lines 403-420), and
  the state when the packet has been queued and its flow chained (line 486), before the
  buffer limit is looked at.
\<close>

definition cake_enqueue_slot :: "cake_sched_data \<Rightarrow> sk_buff \<Rightarrow> nat \<times> nat" where
  "cake_enqueue_slot q skb =
     (case cake_classify q skb of (tin, skb1) \<Rightarrow>
        (tin, unat (cake_hash (tins q tin) skb1 (flow_mode q))))"

definition cake_enqueue_queued :: "u64 \<Rightarrow> gso_result \<Rightarrow> sk_buff \<Rightarrow> cake_sched_data \<Rightarrow> cake_sched_data" where
  "cake_enqueue_queued now gso skb q =
     (case cake_classify q skb of (tin, skb1) \<Rightarrow>
        let idx = unat (cake_hash (tins q tin) skb1 (flow_mode q));
            q1 = cake_unstale now tin q;
            q2 = (case gso of GSO_Segs segs \<Rightarrow> cake_enqueue_gso now tin idx segs q1
                            | _ \<Rightarrow> cake_enqueue_plain now tin idx skb1 q1)
        in cake_enqueue_flowchain tin idx q2)"

lemma cake_enqueue_success:
  "cake_enqueue now gso skb q = Inr (NET_XMIT_SUCCESS, q') \<longleftrightarrow>
     gso \<noteq> GSO_Failed \<and> gso \<noteq> GSO_Segs [] \<and>
     cake_enqueue_overflow (fst (cake_enqueue_slot q skb)) (cake_enqueue_queued now gso skb q) = Inr q'"
proof -
  obtain tin skb1 where c: "cake_classify q skb = (tin, skb1)"
    by (cases "cake_classify q skb") auto
  show ?thesis
  proof (cases gso)
    case Not_GSO
    then show ?thesis
      by (simp add: cake_enqueue_def cake_enqueue_slot_def cake_enqueue_queued_def c Let_def
               split: sum.splits)
  next
    case GSO_Failed
    then show ?thesis by (simp add: cake_enqueue_def c Let_def)
  next
    case (GSO_Segs segs)
    then show ?thesis
      by (cases segs)
         (simp_all add: cake_enqueue_def cake_enqueue_slot_def cake_enqueue_queued_def c Let_def
               split: sum.splits)
  qed
qed

section \<open>New flows (C2)\<close>

text \<open>The two lists of every tin and the deficit of every flow.\<close>

definition chains where
  "chains q = (\<lambda>t. (new_flows (tins q t), old_flows (tins q t), (\<lambda>i. deficit (flows (tins q t) i))))"

lemma chains_unstale: "chains (cake_unstale now tin q) = chains q"
  by (simp add: chains_def cake_unstale_def Let_def upd_tin_def fun_eq_iff)

lemma chains_enqueue_plain: "chains (cake_enqueue_plain now tin idx skb q) = chains q"
  by (simp add: chains_def cake_enqueue_plain_def Let_def upd_tin_def upd_flow_def
                flow_queue_add_def fun_eq_iff)

lemma chains_gso_fold:
  "chains (fst (fold (cake_gso_add now tin idx) segs qs)) = chains (fst qs)"
proof (induction segs arbitrary: qs)
  case Nil
  show ?case by simp
next
  case (Cons seg segs)
  obtain q slen where qs: "qs = (q, slen)" by (cases qs) auto
  have "chains (fst (cake_gso_add now tin idx seg (q, slen))) = chains q"
    by (simp add: chains_def cake_gso_add_def Let_def upd_tin_def upd_flow_def
                  flow_queue_add_def fun_eq_iff)
  with Cons.IH[of "cake_gso_add now tin idx seg (q, slen)"] qs show ?case by simp
qed

lemma chains_enqueue_gso: "chains (cake_enqueue_gso now tin idx segs q) = chains q"
proof -
  obtain q1 slen where f: "fold (cake_gso_add now tin idx) segs (q, 0) = (q1, slen)"
    by (cases "fold (cake_gso_add now tin idx) segs (q, 0)") auto
  with chains_gso_fold[of now tin idx segs "(q, 0)"] have "chains q1 = chains q" by simp
  moreover have "chains (cake_enqueue_gso now tin idx segs q) = chains q1"
    using f by (simp add: cake_enqueue_gso_def Let_def chains_def upd_tin_def fun_eq_iff)
  ultimately show ?thesis by simp
qed

lemma chains_drop:
  assumes "cake_drop q = Inr (r, q')"
  shows "chains q' = chains q"
proof -
  obtain m idx tin where f: "cake_drop_find q = (m, idx, tin)"
    by (cases "cake_drop_find q") auto
  with assms show ?thesis
    by (auto simp: cake_drop_def dequeue_head_def Let_def chains_def fun_eq_iff
             split: list.splits)
qed

lemma chains_overflow_loop:
  assumes "cake_overflow_loop q n = Inr (q', n')"
  shows "chains q' = chains q"
proof -
  have "chains q' = chains q \<and> buffer_used q' \<le> buffer_limit q'"
  proof (rule cake_overflow_loop_rule[where P = "\<lambda>q0. chains q0 = chains q", OF assms])
    show "chains q = chains q" by simp
  next
    fix q0 r q1
    assume "chains q0 = chains q" "cake_drop q0 = Inr (r, q1)"
    then show "chains q1 = chains q" using chains_drop by simp
  qed
  then show ?thesis by simp
qed

lemma chains_overflow:
  assumes "cake_enqueue_overflow tin q = Inr q'"
  shows "chains q' = chains q"
proof (cases "buffer_used q > buffer_limit q")
  case False
  with assms show ?thesis by (simp add: cake_enqueue_overflow_def)
next
  case True
  with assms obtain q1 n where l: "cake_overflow_loop q 0 = Inr (q1, n)"
    and q': "q' = upd_tin tin (\<lambda>b. b\<lparr>drop_overlimit := drop_overlimit b + n\<rparr>) q1"
    by (auto simp: cake_enqueue_overflow_def split: sum.splits)
  have "chains q' = chains q1" by (simp add: q' chains_def upd_tin_def fun_eq_iff)
  with chains_overflow_loop[OF l] show ?thesis by simp
qed

lemma chains_tin:
  "chains q' = chains q \<Longrightarrow>
     new_flows (tins q' t) = new_flows (tins q t) \<and> old_flows (tins q' t) = old_flows (tins q t) \<and>
     deficit (flows (tins q' t) i) = deficit (flows (tins q t) i)"
  by (simp add: chains_def fun_eq_iff)

lemma cake_enqueue_queued_chains:
  assumes "cake_enqueue_slot q skb = (tin, idx)"
  shows "new_flows (tins (cake_enqueue_queued now gso skb q) tin) =
           (if flowchain_empty (tins q tin) idx then new_flows (tins q tin) @ [idx]
            else new_flows (tins q tin)) \<and>
         old_flows (tins (cake_enqueue_queued now gso skb q) tin) = old_flows (tins q tin) \<and>
         deficit (flows (tins (cake_enqueue_queued now gso skb q) tin) idx) =
           (if flowchain_empty (tins q tin) idx then ucast (quantum (tins q tin))
            else deficit (flows (tins q tin) idx))"
proof -
  obtain skb1 where c: "cake_classify q skb = (tin, skb1)"
    and i: "idx = unat (cake_hash (tins q tin) skb1 (flow_mode q))"
    using assms by (cases "cake_classify q skb") (auto simp: cake_enqueue_slot_def)
  let ?q1 = "cake_unstale now tin q"
  let ?q2 = "case gso of GSO_Segs segs \<Rightarrow> cake_enqueue_gso now tin idx segs ?q1
                       | _ \<Rightarrow> cake_enqueue_plain now tin idx skb1 ?q1"
  have ch: "chains ?q2 = chains q"
    by (cases gso) (simp_all add: chains_enqueue_gso chains_enqueue_plain chains_unstale)
  have "same_static ?q1 ?q2"
    by (cases gso) (simp_all add: same_static_enqueue_gso same_static_enqueue_plain)
  with same_static_unstale[of q now tin] have st: "same_static q ?q2"
    by (rule same_static_trans)
  then have qu: "quantum (tins ?q2 tin) = quantum (tins q tin)"
    by (simp add: same_static_def tin_static_def)
  note t = chains_tin[OF ch, of tin idx]
  have fe: "flowchain_empty (tins ?q2 tin) idx = flowchain_empty (tins q tin) idx"
    using t by (simp add: flowchain_empty_def)
  have e: "cake_enqueue_queued now gso skb q = cake_enqueue_flowchain tin idx ?q2"
    unfolding i by (simp add: cake_enqueue_queued_def c Let_def)
  show ?thesis
    unfolding e using t qu fe
    by (simp add: cake_enqueue_flowchain_def upd_tin_def upd_flow_def)
qed

text \<open>
  C2, as amended.  The test of \<open>cake_enqueue\<close> is whether the flow is on a list, not
  whether its queue is empty.  When an enqueue succeeds and the flow of the packet was on
  neither list of its tin, it is appended to the tail of the tin's \<open>new_flows\<close> and its
  deficit is the tin's quantum; when the flow was on a list - with an empty queue or not -
  both lists and the deficit stay as they were.
\<close>

theorem cake_enqueue_new_flow:
  assumes "cake_enqueue now gso skb q = Inr (NET_XMIT_SUCCESS, q')"
    and "cake_enqueue_slot q skb = (tin, idx)"
  shows "old_flows (tins q' tin) = old_flows (tins q tin) \<and>
         (flowchain_empty (tins q tin) idx \<longrightarrow>
            new_flows (tins q' tin) = new_flows (tins q tin) @ [idx] \<and>
            deficit (flows (tins q' tin) idx) = ucast (quantum (tins q tin))) \<and>
         (\<not> flowchain_empty (tins q tin) idx \<longrightarrow>
            new_flows (tins q' tin) = new_flows (tins q tin) \<and>
            deficit (flows (tins q' tin) idx) = deficit (flows (tins q tin) idx))"
proof -
  from assms have o: "cake_enqueue_overflow tin (cake_enqueue_queued now gso skb q) = Inr q'"
    by (simp add: cake_enqueue_success)
  note t = chains_tin[OF chains_overflow[OF o], of tin idx]
  from cake_enqueue_queued_chains[OF assms(2), of now gso] t show ?thesis by simp
qed

text \<open>The engine \<open>eng_b\<close> after a packet of 500 bytes for flow 0 was enqueued at time 3000.\<close>

definition eng_bc :: cake_sched_data where
  "eng_bc = eng_b\<lparr>tins := (tins eng_b)(1 := (tins eng_b 1)
       \<lparr>flows := (flows (tins eng_b 1))
                   (0 := zero_flow\<lparr>queue := [(flow_skb 500 0)\<lparr>enqueue_time := 3000\<rparr>],
                                    deficit := 514\<rparr>),
        backlogs := (backlogs (tins eng_b 1))(0 := 500),
        tin_backlog := 1500, packets := 3, bytes := 2500\<rparr>),
     buffer_used := 2012, sch_qlen := 2, sch_backlog := 1500\<rparr>"

lemma eng_bc_run:
  "cake_enqueue 3000 Not_GSO (flow_skb 500 0) eng_b = Inr (NET_XMIT_SUCCESS, eng_bc)"
  by (simp add: eng_b_def eng_bc_def run_defs)

theorem cake_enqueue_new_flow_witness:
  "cake_enqueue 1000 Not_GSO (flow_skb 1000 0) default_engine = Inr (NET_XMIT_SUCCESS, eng_a) \<and>
   cake_enqueue_slot default_engine (flow_skb 1000 0) = (1, 0) \<and>
   flowchain_empty (tins default_engine 1) 0 \<and>
   new_flows (tins eng_a 1) = [0] \<and>
   deficit (flows (tins eng_a 1) 0) = 1514"
proof -
  have s: "cake_enqueue_slot default_engine (flow_skb 1000 0) = (1, 0)"
    by (simp add: run_defs cake_enqueue_slot_def)
  have e: "flowchain_empty (tins default_engine 1) 0"
    by (simp add: eng_defs flowchain_empty_def)
  have n: "new_flows (tins default_engine 1) = []" "quantum (tins default_engine 1) = 1514"
    by (simp_all add: eng_defs)
  from cake_enqueue_new_flow[OF eng_a_run s] e n
  have "new_flows (tins eng_a 1) = [0] \<and> deficit (flows (tins eng_a 1) 0) = 1514"
    by simp
  with eng_a_run s e show ?thesis by simp
qed

text \<open>
  The claim as stated fails for a flow that is empty but still on a list.  On the default
  engine, packets of 1000 bytes are queued for flows 0 and 1 of tin 1 and the first is
  dequeued: flow 0 is empty, is still the head of \<open>new_flows\<close>, and has the deficit
  \<open>1514 - 1000\<close>.  The next packet for flow 0 leaves it where it is, before flow 1, with
  the deficit 514 and not the quantum 1514.
\<close>

theorem cake_enqueue_new_flow_counterexample:
  "cake_dequeue pass_all 10 2000 eng_ab =
     Some (Some ((flow_skb 1000 0)\<lparr>enqueue_time := 1000\<rparr>), eng_b) \<and>
   queue (flows (tins eng_b 1) 0) = [] \<and>
   new_flows (tins eng_b 1) = [0, 1] \<and>
   cake_enqueue_slot eng_b (flow_skb 500 0) = (1, 0) \<and>
   cake_enqueue 3000 Not_GSO (flow_skb 500 0) eng_b = Inr (NET_XMIT_SUCCESS, eng_bc) \<and>
   new_flows (tins eng_bc 1) = [0, 1] \<and>
   quantum (tins eng_b 1) = 1514 \<and>
   deficit (flows (tins eng_bc 1) 0) = 514"
proof -
  have 1: "queue (flows (tins eng_b 1) 0) = []" by (simp add: eng_b_def run_defs)
  have 2: "new_flows (tins eng_b 1) = [0, 1]" by (simp add: eng_b_def run_defs)
  have 3: "cake_enqueue_slot eng_b (flow_skb 500 0) = (1, 0)"
    by (simp add: eng_b_def run_defs cake_enqueue_slot_def)
  have 5: "new_flows (tins eng_bc 1) = [0, 1]" by (simp add: eng_bc_def eng_b_def run_defs)
  have 6: "quantum (tins eng_b 1) = 1514" by (simp add: eng_b_def run_defs)
  have 7: "deficit (flows (tins eng_bc 1) 0) = 514" by (simp add: eng_bc_def eng_b_def run_defs)
  from eng_b_run 1 2 3 eng_bc_run 5 6 7 show ?thesis by (intro conjI)
qed

end
